theory Spec2Isabelle
  imports Complex_Main "HOL-Library.Word"
begin

section \<open>JavaScript strings and class lists\<close>

text \<open>
  A JavaScript string is a sequence of UTF-16 code units. String literals of
  \<^verbatim>\<open>script.js\<close> are ASCII (with the one exception of the ellipsis in the
  "Sending" label) and are written with \<open>ascii\<close>.
\<close>

type_synonym jschar = "16 word"
type_synonym jsstring = "jschar list"

definition ascii :: "string \<Rightarrow> jsstring" where
  "ascii s = map (\<lambda>c. of_nat (of_char c)) s"

text \<open>
  \<^verbatim>\<open>element.classList\<close> is an ordered set of tokens: \<^verbatim>\<open>add\<close> appends a token
  that is not there yet, \<^verbatim>\<open>remove\<close> deletes it, \<^verbatim>\<open>toggle(t)\<close> flips it and returns
  whether the token is present afterwards, \<^verbatim>\<open>toggle(t, force)\<close> adds when \<open>force\<close> is
  true and removes otherwise.
\<close>

definition cl_contains :: "jsstring \<Rightarrow> jsstring list \<Rightarrow> bool" where
  "cl_contains t cl = (t \<in> set cl)"

definition cl_add :: "jsstring \<Rightarrow> jsstring list \<Rightarrow> jsstring list" where
  "cl_add t cl = (if t \<in> set cl then cl else cl @ [t])"

definition cl_remove :: "jsstring \<Rightarrow> jsstring list \<Rightarrow> jsstring list" where
  "cl_remove t cl = filter (\<lambda>u. u \<noteq> t) cl"

definition cl_toggle :: "jsstring \<Rightarrow> jsstring list \<Rightarrow> jsstring list \<times> bool" where
  "cl_toggle t cl = (if t \<in> set cl then (cl_remove t cl, False) else (cl_add t cl, True))"

definition cl_toggle_force :: "jsstring \<Rightarrow> bool \<Rightarrow> jsstring list \<Rightarrow> jsstring list" where
  "cl_toggle_force t force cl = (if force then cl_add t cl else cl_remove t cl)"

section \<open>Mobile menu: hamburger click, mobile link click, resize\<close>

text \<open>
  \<^verbatim>\<open>#hamburger\<close> and \<^verbatim>\<open>#mobileMenu\<close> may be missing from the page (\<open>None\<close>).
  \<^verbatim>\<open>initHamburger\<close> attaches its listeners only when both exist; the resize
  handler looks both up again and guards the button with \<^verbatim>\<open>?.\<close>.
\<close>

record element =
  classList :: "jsstring list"
  aria_expanded :: "jsstring option"

record page =
  mobileMenu :: "element option"
  hamburger :: "element option"
  body_overflow :: jsstring

definition js_String_bool :: "bool \<Rightarrow> jsstring" where
  "js_String_bool b = (if b then ascii ''true'' else ascii ''false'')"

definition hamburger_click :: "page \<Rightarrow> page" where
  "hamburger_click p =
     (case (hamburger p, mobileMenu p) of
        (Some btn, Some menu) \<Rightarrow>
          (let (mcl, isOpen) = cl_toggle (ascii ''open'') (classList menu);
               btn1 = btn\<lparr>classList := cl_toggle_force (ascii ''open'') isOpen (classList btn)\<rparr>;
               btn2 = btn1\<lparr>aria_expanded := Some (js_String_bool isOpen)\<rparr>
           in p\<lparr>mobileMenu := Some (menu\<lparr>classList := mcl\<rparr>),
                hamburger := Some btn2,
                body_overflow := (if isOpen then ascii ''hidden'' else [])\<rparr>)
      | _ \<Rightarrow> p)"

definition mobile_link_click :: "page \<Rightarrow> page" where
  "mobile_link_click p =
     (case (hamburger p, mobileMenu p) of
        (Some btn, Some menu) \<Rightarrow>
          p\<lparr>mobileMenu := Some (menu\<lparr>classList := cl_remove (ascii ''open'') (classList menu)\<rparr>),
            hamburger := Some (btn\<lparr>classList := cl_remove (ascii ''open'') (classList btn),
                                   aria_expanded := Some (ascii ''false'')\<rparr>),
            body_overflow := []\<rparr>
      | _ \<Rightarrow> p)"

definition resize_handler :: "int \<Rightarrow> page \<Rightarrow> page" where
  "resize_handler innerWidth p =
     (if innerWidth > 768 then
        (case mobileMenu p of
           Some menu \<Rightarrow>
             (if cl_contains (ascii ''open'') (classList menu) then
                p\<lparr>mobileMenu := Some (menu\<lparr>classList := cl_remove (ascii ''open'') (classList menu)\<rparr>),
                  hamburger := map_option
                     (\<lambda>btn. btn\<lparr>classList := cl_remove (ascii ''open'') (classList btn)\<rparr>)
                     (hamburger p),
                  body_overflow := []\<rparr>
              else p)
         | None \<Rightarrow> p)
      else p)"

section \<open>Intersection observers\<close>

text \<open>
  Elements watched by an observer are numbered by their position in the list the
  initializer obtained from \<^verbatim>\<open>$$\<close>. An entry names its target and carries
  \<^verbatim>\<open>isIntersecting\<close>. The browser reports entries only for targets that are
  observed, so a batch is filtered by the observed set before the callback sees it;
  the callback then walks the whole batch with \<^verbatim>\<open>forEach\<close>. A batch holds the
  entries queued since the last delivery, as a rule one per target.
\<close>

record entry =
  target :: nat
  isIntersecting :: bool

definition deliverable :: "nat set \<Rightarrow> entry list \<Rightarrow> entry list" where
  "deliverable obs es = filter (\<lambda>e. target e \<in> obs) es"

subsection \<open>Skill bars\<close>

text \<open>
  A \<^verbatim>\<open>.skill-fill\<close> element: its \<^verbatim>\<open>data-width\<close> attribute, the text of its
  \<^verbatim>\<open>style.width\<close>, and the setter of \<^verbatim>\<open>style.width\<close>, which belongs to the
  browser: for a string that is a valid CSS width it gives the text that is stored,
  and \<open>None\<close> for any other string, which it ignores.
\<close>

record skill_fill =
  data_width :: "jsstring option"
  style_width :: jsstring
  width_setter :: "jsstring \<Rightarrow> jsstring option"

record skill_state =
  bars :: "skill_fill list"
  bars_observed :: "nat set"
  width_sets :: "nat list"

text \<open>\<^verbatim>\<open>element.style.width = v\<close>\<close>

definition assign_style_width :: "jsstring \<Rightarrow> skill_fill \<Rightarrow> skill_fill" where
  "assign_style_width v b =
     b\<lparr>style_width := (case width_setter b v of None \<Rightarrow> style_width b | Some w \<Rightarrow> w)\<rparr>"

text \<open>
  \<^verbatim>\<open>entry.target.dataset.width || '80'\<close>: \<open>undefined\<close> (no attribute) and the
  empty string are both falsy. \<open>width_sets\<close> logs each assignment to
  \<^verbatim>\<open>style.width\<close> by target.
\<close>

definition dataset_width_or_80 :: "skill_fill \<Rightarrow> jsstring" where
  "dataset_width_or_80 b =
     (case data_width b of None \<Rightarrow> ascii ''80''
      | Some w \<Rightarrow> if w = [] then ascii ''80'' else w)"

definition skill_entry :: "entry \<Rightarrow> skill_state \<Rightarrow> skill_state" where
  "skill_entry e s =
     (if isIntersecting e \<and> target e < length (bars s) then
        (let b = bars s ! target e;
             width = dataset_width_or_80 b
         in s\<lparr>bars := (bars s)[target e := assign_style_width (width @ ascii ''%'') b],
              width_sets := width_sets s @ [target e],
              bars_observed := bars_observed s - {target e}\<rparr>)
      else s)"

definition skill_callback :: "entry list \<Rightarrow> skill_state \<Rightarrow> skill_state" where
  "skill_callback es s = fold skill_entry es s"

definition skill_notify :: "entry list \<Rightarrow> skill_state \<Rightarrow> skill_state" where
  "skill_notify es s = skill_callback (deliverable (bars_observed s) es) s"

definition initSkillBars :: "skill_fill list \<Rightarrow> skill_state" where
  "initSkillBars bs = \<lparr>bars = bs, bars_observed = {..<length bs}, width_sets = []\<rparr>"

section \<open>Navbar: active link\<close>

subsection \<open>The numbers of line 110\<close>

text \<open>
  \<^verbatim>\<open>window.scrollY + window.innerHeight * 0.3\<close> is computed in IEEE 754 binary64
  with rounding to nearest, ties to even. A finite double is \<open>m * 2 ^ e\<close> for
  integers \<open>m\<close> and \<open>e\<close>; \<open>Finite m e\<close> stands for that value, and the two
  infinities for a result beyond the largest double. \<open>round_double m e\<close> is the
  double nearest to the exact value \<open>m * 2 ^ e\<close>: at most 53 bits of \<open>m\<close> are
  kept, and no bit below \<open>2 ^ -1074\<close>.
\<close>

datatype js_number = Finite int int | PosInfinity | NegInfinity

fun bitlen :: "nat \<Rightarrow> nat" where
  "bitlen n = (if n = 0 then 0 else Suc (bitlen (n div 2)))"

declare bitlen.simps [simp del]

definition round_half_even :: "nat \<Rightarrow> nat \<Rightarrow> nat" where
  "round_half_even a d =
     (let q = a div d; r = a mod d
      in if 2 * r > d \<or> (2 * r = d \<and> odd q) then q + 1 else q)"

definition round_double :: "int \<Rightarrow> int \<Rightarrow> js_number" where
  "round_double m e =
     (if m = 0 then Finite 0 0
      else
        (let a = nat \<bar>m\<bar>;
             s = max (int (bitlen a) - 53) (- 1074 - e);
             q = (if s \<le> 0 then a else round_half_even a (2 ^ nat s));
             e' = (if s \<le> 0 then e else e + s)
         in if int (bitlen q) + e' > 1024
            then (if m < 0 then NegInfinity else PosInfinity)
            else Finite (sgn m * int q) e'))"

text \<open>
  The literal \<^verbatim>\<open>0.3\<close> is the double \<open>5404319552844595 * 2 ^ -54\<close>.
  \<^verbatim>\<open>window.innerHeight\<close> is a whole number of pixels, small enough to be a double
  itself, so that the product is rounded once; \<^verbatim>\<open>window.scrollY\<close> is a finite
  double, given by its \<open>m\<close> and \<open>e\<close> (1.6 is \<open>(3602879701896397, -51)\<close>, and a whole
  number \<open>n\<close> is \<open>(n, 0)\<close>).
\<close>

definition times_0_3 :: "int \<Rightarrow> js_number" where
  "times_0_3 innerHeight = round_double (innerHeight * 5404319552844595) (- 54)"

fun js_plus :: "int \<times> int \<Rightarrow> js_number \<Rightarrow> js_number" where
  "js_plus (m1, e1) (Finite m2 e2) =
     (let e = min e1 e2
      in round_double (m1 * 2 ^ nat (e1 - e) + m2 * 2 ^ nat (e2 - e)) e)"
| "js_plus (m1, e1) PosInfinity = PosInfinity"
| "js_plus (m1, e1) NegInfinity = NegInfinity"

definition scrollPos :: "int \<times> int \<Rightarrow> int \<Rightarrow> js_number" where
  "scrollPos scrollY innerHeight = js_plus scrollY (times_0_3 innerHeight)"

text \<open>
  \<^verbatim>\<open>sec.offsetTop <= scrollPos\<close>: \<^verbatim>\<open>offsetTop\<close> is a whole number of pixels, and
  the comparison of two numbers is exact.
\<close>

fun offset_le :: "int \<Rightarrow> js_number \<Rightarrow> bool" where
  "offset_le t (Finite m e) = (if 0 \<le> e then t \<le> m * 2 ^ nat e else t * 2 ^ nat (- e) \<le> m)"
| "offset_le t PosInfinity = True"
| "offset_le t NegInfinity = False"

subsection \<open>Sections and links\<close>

text \<open>
  \<^verbatim>\<open>updateActiveNavLink\<close> reads the sections matching \<^verbatim>\<open>section[id]\<close> and the
  links matching \<^verbatim>\<open>.nav-link\<close>, both in document order. \<^verbatim>\<open>getAttribute('href')\<close>
  is \<open>null\<close> (\<open>None\<close>) for a link without the attribute.
\<close>

record section_el =
  sec_id :: jsstring
  offsetTop :: int

record nav_link =
  href :: "jsstring option"
  link_classes :: "jsstring list"

definition current_section :: "section_el list \<Rightarrow> js_number \<Rightarrow> jsstring" where
  "current_section sections pos =
     fold (\<lambda>sec current. if offset_le (offsetTop sec) pos then sec_id sec else current)
          sections []"

definition mark_link :: "jsstring \<Rightarrow> nav_link \<Rightarrow> nav_link" where
  "mark_link current link =
     (let l1 = link\<lparr>link_classes := cl_remove (ascii ''active'') (link_classes link)\<rparr>
      in if href l1 = Some (ascii ''#'' @ current)
         then l1\<lparr>link_classes := cl_add (ascii ''active'') (link_classes l1)\<rparr>
         else l1)"

definition updateActiveNavLink ::
  "section_el list \<Rightarrow> nav_link list \<Rightarrow> int \<times> int \<Rightarrow> int \<Rightarrow> nav_link list" where
  "updateActiveNavLink sections navLinks scrollY innerHeight =
     (let pos = scrollPos scrollY innerHeight;
          current = current_section sections pos
      in map (mark_link current) navLinks)"

definition is_active :: "nav_link \<Rightarrow> bool" where
  "is_active link = cl_contains (ascii ''active'') (link_classes link)"

definition active_count :: "nav_link list \<Rightarrow> nat" where
  "active_count links = length (filter is_active links)"

section \<open>Timers\<close>

text \<open>
  The timer table of the page: the clock in milliseconds, the next timer id, and the
  pending timers as (id, due time, callback) in the order they were set.
  \<^verbatim>\<open>clearTimeout\<close> of \<open>undefined\<close> (\<open>None\<close>) or of a timer that already ran
  does nothing. When time passes until \<open>t\<close>, the timers due by then run in the order
  of their due times, and in the order they were set among equal due times.
\<close>

record 'cb timers =
  now :: nat
  next_id :: nat
  queue :: "(nat \<times> nat \<times> 'cb) list"

definition no_timers :: "'cb timers" where
  "no_timers = \<lparr>now = 0, next_id = 1, queue = []\<rparr>"

definition setTimeout :: "'cb \<Rightarrow> nat \<Rightarrow> 'cb timers \<Rightarrow> nat \<times> 'cb timers" where
  "setTimeout cb delay T =
     (next_id T,
      T\<lparr>next_id := Suc (next_id T), queue := queue T @ [(next_id T, now T + delay, cb)]\<rparr>)"

definition drop_timer :: "nat \<Rightarrow> (nat \<times> nat \<times> 'cb) list \<Rightarrow> (nat \<times> nat \<times> 'cb) list" where
  "drop_timer i q = filter (\<lambda>x. fst x \<noteq> i) q"

definition clearTimeout :: "nat option \<Rightarrow> 'cb timers \<Rightarrow> 'cb timers" where
  "clearTimeout t T = (case t of None \<Rightarrow> T | Some i \<Rightarrow> T\<lparr>queue := drop_timer i (queue T)\<rparr>)"

definition due_by :: "nat \<Rightarrow> nat \<times> nat \<times> 'cb \<Rightarrow> bool" where
  "due_by t x = (fst (snd x) \<le> t)"

text \<open>
  For callbacks that set no timers themselves: the (due time, callback) pairs that
  run while the clock moves to \<open>t\<close>, in the order they run, and the table afterwards.
\<close>

definition due_timers :: "nat \<Rightarrow> 'cb timers \<Rightarrow> (nat \<times> 'cb) list" where
  "due_timers t T = map snd (sort_key (\<lambda>x. fst (snd x)) (filter (due_by t) (queue T)))"

definition elapse :: "nat \<Rightarrow> 'cb timers \<Rightarrow> 'cb timers" where
  "elapse t T = T\<lparr>now := max (now T) t, queue := filter (\<lambda>x. \<not> due_by t x) (queue T)\<rparr>"

section \<open>Debounce\<close>

text \<open>
  \<^verbatim>\<open>debounce(fn, delay)\<close> returns a closure over the variable \<^verbatim>\<open>timer\<close>. The
  callback scheduled by the wrapper is \<^verbatim>\<open>() => fn(...args)\<close>; it is represented
  by the arguments, and running it appends (time, arguments) to the record of the
  executions of \<^verbatim>\<open>fn\<close>.
\<close>

record 'a debounced =
  timer :: "nat option"
  db_timers :: "'a timers"
  fn_calls :: "(nat \<times> 'a) list"

definition debounce_init :: "'a debounced" where
  "debounce_init = \<lparr>timer = None, db_timers = no_timers, fn_calls = []\<rparr>"

definition wrapper :: "nat \<Rightarrow> 'a \<Rightarrow> 'a debounced \<Rightarrow> 'a debounced" where
  "wrapper delay args s =
     (let T1 = clearTimeout (timer s) (db_timers s);
          (i, T2) = setTimeout args delay T1
      in s\<lparr>timer := Some i, db_timers := T2\<rparr>)"

text \<open>Time passes until \<open>t\<close>: the scheduled calls due by then run.\<close>

definition db_advance :: "nat \<Rightarrow> 'a debounced \<Rightarrow> 'a debounced" where
  "db_advance t s =
     s\<lparr>db_timers := elapse t (db_timers s),
       fn_calls := fn_calls s @ due_timers t (db_timers s)\<rparr>"

text \<open>An invocation of the wrapper at time \<open>fst c\<close> with arguments \<open>snd c\<close>.\<close>

definition invoke :: "nat \<Rightarrow> nat \<times> 'a \<Rightarrow> 'a debounced \<Rightarrow> 'a debounced" where
  "invoke delay c s = wrapper delay (snd c) (db_advance (fst c) s)"

definition invocations :: "nat \<Rightarrow> (nat \<times> 'a) list \<Rightarrow> 'a debounced \<Rightarrow> 'a debounced" where
  "invocations delay cs s = fold (invoke delay) cs s"

text \<open>
  The hypothesis of a burst: times do not go back, and consecutive invocations are
  less than \<open>delay\<close> apart.
\<close>

fun burst :: "nat \<Rightarrow> (nat \<times> 'a) list \<Rightarrow> bool" where
  "burst d [] = True"
| "burst d [c] = True"
| "burst d (c # c' # cs) = (fst c \<le> fst c' \<and> fst c' < fst c + d \<and> burst d (c' # cs))"

section \<open>Counters\<close>

text \<open>
  \<^verbatim>\<open>/\D/g\<close> and \<^verbatim>\<open>/[0-9]/g\<close> concern the ASCII digits only. \<open>parseInt_digits\<close> is
  \<^verbatim>\<open>parseInt(text, 10)\<close> on a string of digits: \<open>NaN\<close> (\<open>None\<close>) for the empty
  string, its value otherwise. \<open>show_nat\<close> is the conversion of a whole number to a
  string in \<^verbatim>\<open>start + suffix\<close>. Numbers are whole and exact here; the doubles of the
  program agree with them below \<open>2^53\<close>.
\<close>

definition is_digit :: "jschar \<Rightarrow> bool" where
  "is_digit c = (0x30 \<le> c \<and> c \<le> 0x39)"

definition digit_val :: "jschar \<Rightarrow> nat" where
  "digit_val c = unat c - 48"

definition digit_chr :: "nat \<Rightarrow> jschar" where
  "digit_chr d = of_nat (48 + d)"

definition parseInt_digits :: "jsstring \<Rightarrow> nat option" where
  "parseInt_digits text =
     (if text = [] then None else Some (foldl (\<lambda>n c. 10 * n + digit_val c) 0 text))"

fun show_nat :: "nat \<Rightarrow> jsstring" where
  "show_nat n = (if n < 10 then [digit_chr n] else show_nat (n div 10) @ [digit_chr (n mod 10)])"

declare show_nat.simps [simp del]

definition js_ceil_div :: "nat \<Rightarrow> nat \<Rightarrow> nat" where
  "js_ceil_div a b = (a + (b - 1)) div b"

text \<open>
  The closure of the \<^verbatim>\<open>setInterval\<close> callback: the element, the mutable \<^verbatim>\<open>start\<close>,
  and the constants \<^verbatim>\<open>end\<close> and \<^verbatim>\<open>suffix\<close>; the constant \<^verbatim>\<open>step\<close> is
  \<^verbatim>\<open>Math.ceil(end / 35)\<close>.
\<close>

record interval =
  iv_el :: nat
  iv_start :: nat
  iv_end :: nat
  iv_suffix :: jsstring

definition iv_step :: "interval \<Rightarrow> nat" where
  "iv_step iv = js_ceil_div (iv_end iv) 35"

text \<open>
  One run of the interval callback: the closure afterwards, the text written to the
  element, and whether \<^verbatim>\<open>clearInterval\<close> was called.
\<close>

definition interval_tick :: "interval \<Rightarrow> interval \<times> jsstring \<times> bool" where
  "interval_tick iv =
     (let start' = min (iv_start iv + iv_step iv) (iv_end iv)
      in (iv\<lparr>iv_start := start'\<rparr>, show_nat start' @ iv_suffix iv, start' = iv_end iv))"

text \<open>
  The texts the interval displays with their times, the interval being set at time
  \<open>t\<close> (or having last run then): it runs every 38 ms until it clears itself.
\<close>

function counter_loop :: "nat \<Rightarrow> interval \<Rightarrow> (nat \<times> jsstring) list" where
  "counter_loop t iv =
     (case interval_tick iv of
        (iv', txt, cleared) \<Rightarrow>
          (t + 38, txt) # (if cleared then [] else counter_loop (t + 38) iv'))"
  by pat_completeness auto
termination
proof (relation "measure (\<lambda>(t, iv). iv_end iv - iv_start iv)")
qed (auto simp: interval_tick_def Let_def min_def iv_step_def js_ceil_div_def split: if_splits)

declare counter_loop.simps [simp del]

record counter_state =
  texts :: "jsstring list"
  ctr_observed :: "nat set"
  intervals :: "interval list"
  anim_starts :: "nat list"

text \<open>
  One entry of the counter observer's callback. \<^verbatim>\<open>if (!end) return\<close> leaves the
  entry when \<^verbatim>\<open>end\<close> is \<open>NaN\<close> or 0, before \<^verbatim>\<open>setInterval\<close> and before
  \<^verbatim>\<open>unobserve\<close>. \<open>anim_starts\<close> logs each \<^verbatim>\<open>setInterval\<close> by target.
\<close>

definition counter_entry :: "entry \<Rightarrow> counter_state \<Rightarrow> counter_state" where
  "counter_entry e s =
     (if isIntersecting e \<and> target e < length (texts s) then
        (let el = target e;
             text = filter is_digit (texts s ! el);
             end = parseInt_digits text;
             suffix = filter (\<lambda>c. \<not> is_digit c) (texts s ! el)
         in case end of
              None \<Rightarrow> s
            | Some n \<Rightarrow>
                if n = 0 then s
                else s\<lparr>intervals := intervals s @
                          [\<lparr>iv_el = el, iv_start = 0, iv_end = n, iv_suffix = suffix\<rparr>],
                       anim_starts := anim_starts s @ [el],
                       ctr_observed := ctr_observed s - {el}\<rparr>)
      else s)"

definition counter_callback :: "entry list \<Rightarrow> counter_state \<Rightarrow> counter_state" where
  "counter_callback es s = fold counter_entry es s"

definition counter_notify :: "entry list \<Rightarrow> counter_state \<Rightarrow> counter_state" where
  "counter_notify es s = counter_callback (deliverable (ctr_observed s) es) s"

text \<open>The \<open>k\<close>-th running interval fires once.\<close>

definition counter_fire :: "nat \<Rightarrow> counter_state \<Rightarrow> counter_state" where
  "counter_fire k s =
     (if k < length (intervals s) then
        (case interval_tick (intervals s ! k) of
           (iv', txt, cleared) \<Rightarrow>
             s\<lparr>texts := (texts s)[iv_el iv' := txt],
               intervals := (if cleared then take k (intervals s) @ drop (Suc k) (intervals s)
                             else (intervals s)[k := iv'])\<rparr>)
      else s)"

datatype counter_event = Intersections "entry list" | IntervalFires nat

fun counter_step :: "counter_event \<Rightarrow> counter_state \<Rightarrow> counter_state" where
  "counter_step (Intersections es) s = counter_notify es s"
| "counter_step (IntervalFires k) s = counter_fire k s"

definition counter_run :: "counter_event list \<Rightarrow> counter_state \<Rightarrow> counter_state" where
  "counter_run evs s = fold counter_step evs s"

definition initCounters :: "jsstring list \<Rightarrow> counter_state" where
  "initCounters ts = \<lparr>texts = ts, ctr_observed = {..<length ts}, intervals = [], anim_starts = []\<rparr>"

text \<open>
  The frames (time, text) a counter element with text \<open>txt\<close> displays once its entry
  is handled at time \<open>t\<close>; none when no interval is set.
\<close>

definition counter_frames :: "nat \<Rightarrow> jsstring \<Rightarrow> (nat \<times> jsstring) list" where
  "counter_frames t txt =
     (case intervals (counter_entry \<lparr>target = 0, isIntersecting = True\<rparr> (initCounters [txt])) of
        [] \<Rightarrow> []
      | iv # _ \<Rightarrow> counter_loop t iv)"

text \<open>
  Following the specification's words, the non-digit suffix of a text: its longest
  tail without a digit.
\<close>

definition non_digit_suffix :: "jsstring \<Rightarrow> jsstring" where
  "non_digit_suffix txt = rev (takeWhile (\<lambda>c. \<not> is_digit c) (rev txt))"

section \<open>Reveal on scroll\<close>

text \<open>
  A \<^verbatim>\<open>.reveal\<close> element with its parent element, its further ancestors, and
  whether it carries the class \<^verbatim>\<open>visible\<close>. The elements stand in document order,
  which is the order of \<^verbatim>\<open>querySelectorAll\<close>.
\<close>

record reveal_el =
  parentElement :: nat
  outer_ancestors :: "nat list"
  visible :: bool

definition inside :: "nat \<Rightarrow> reveal_el \<Rightarrow> bool" where
  "inside p el = (p = parentElement el \<or> p \<in> set (outer_ancestors el))"

text \<open>\<^verbatim>\<open>parent.querySelectorAll('.reveal:not(.visible)')\<close>\<close>

definition not_visible_inside :: "nat \<Rightarrow> reveal_el list \<Rightarrow> nat list" where
  "not_visible_inside p es = filter (\<lambda>i. inside p (es ! i) \<and> \<not> visible (es ! i)) [0..<length es]"

text \<open>
  The callback of each timer of this observer adds \<^verbatim>\<open>visible\<close> to one element,
  so the timer table holds element numbers. \<open>triggers\<close> logs the targets whose
  own entry was handled, \<open>staggered\<close> the elements for which a timer was set.
\<close>

record reveal_state =
  els :: "reveal_el list"
  rv_observed :: "nat set"
  rv_timers :: "nat timers"
  triggers :: "nat list"
  staggered :: "nat list"

fun stagger :: "nat \<Rightarrow> nat list \<Rightarrow> nat timers \<Rightarrow> nat timers" where
  "stagger idx [] T = T"
| "stagger idx (el # rest) T = stagger (Suc idx) rest (snd (setTimeout el (idx * 90) T))"

definition add_visible :: "nat \<Rightarrow> reveal_el list \<Rightarrow> reveal_el list" where
  "add_visible i es = (if i < length es then es[i := (es ! i)\<lparr>visible := True\<rparr>] else es)"

definition reveal_entry :: "entry \<Rightarrow> reveal_state \<Rightarrow> reveal_state" where
  "reveal_entry e s =
     (if isIntersecting e \<and> target e < length (els s) then
        (let siblings = not_visible_inside (parentElement (els s ! target e)) (els s)
         in s\<lparr>rv_timers := stagger 0 siblings (rv_timers s),
              staggered := staggered s @ siblings,
              els := add_visible (target e) (els s),
              triggers := triggers s @ [target e],
              rv_observed := rv_observed s - {target e}\<rparr>)
      else s)"

definition reveal_callback :: "entry list \<Rightarrow> reveal_state \<Rightarrow> reveal_state" where
  "reveal_callback es s = fold reveal_entry es s"

definition reveal_notify :: "entry list \<Rightarrow> reveal_state \<Rightarrow> reveal_state" where
  "reveal_notify es s = reveal_callback (deliverable (rv_observed s) es) s"

definition reveal_advance :: "nat \<Rightarrow> reveal_state \<Rightarrow> reveal_state" where
  "reveal_advance t s =
     s\<lparr>els := fold (\<lambda>x. add_visible (snd x)) (due_timers t (rv_timers s)) (els s),
       rv_timers := elapse t (rv_timers s)\<rparr>"

datatype reveal_event = RevealIntersections "entry list" | RevealTime nat

fun reveal_step :: "reveal_event \<Rightarrow> reveal_state \<Rightarrow> reveal_state" where
  "reveal_step (RevealIntersections es) s = reveal_notify es s"
| "reveal_step (RevealTime t) s = reveal_advance t s"

definition reveal_run :: "reveal_event list \<Rightarrow> reveal_state \<Rightarrow> reveal_state" where
  "reveal_run evs s = fold reveal_step evs s"

definition initReveal :: "reveal_el list \<Rightarrow> reveal_state" where
  "initReveal es =
     \<lparr>els = es, rv_observed = {..<length es}, rv_timers = no_timers, triggers = [], staggered = []\<rparr>"

definition skill_run :: "entry list list \<Rightarrow> skill_state \<Rightarrow> skill_state" where
  "skill_run batches s = fold skill_notify batches s"

section \<open>Contact form\<close>

subsection \<open>Whitespace and the email pattern\<close>

text \<open>
  \<^verbatim>\<open>\s\<close> and \<^verbatim>\<open>trim\<close> use the same characters: the white space and the line
  terminators of ECMAScript.
\<close>

definition is_space :: "jschar \<Rightarrow> bool" where
  "is_space c =
     (c \<in> {0x9, 0xA, 0xB, 0xC, 0xD, 0x20, 0xA0, 0x1680, 0x2028, 0x2029, 0x202F, 0x205F,
            0x3000, 0xFEFF}
      \<or> (0x2000 \<le> c \<and> c \<le> 0x200A))"

definition js_trim :: "jsstring \<Rightarrow> jsstring" where
  "js_trim s = rev (dropWhile is_space (rev (dropWhile is_space s)))"

text \<open>
  Regular expressions over code units, matched against the whole string (the
  pattern is anchored by \<^verbatim>\<open>^\<close> and \<^verbatim>\<open>$\<close>) by derivatives.
\<close>

datatype rx = Nomatch | Empty | Class "jschar \<Rightarrow> bool" | Seq rx rx | Alt rx rx | Star rx

definition Plus :: "rx \<Rightarrow> rx" where
  "Plus r = Seq r (Star r)"

fun nullable :: "rx \<Rightarrow> bool" where
  "nullable Nomatch = False"
| "nullable Empty = True"
| "nullable (Class P) = False"
| "nullable (Seq r s) = (nullable r \<and> nullable s)"
| "nullable (Alt r s) = (nullable r \<or> nullable s)"
| "nullable (Star r) = True"

fun deriv :: "jschar \<Rightarrow> rx \<Rightarrow> rx" where
  "deriv c Nomatch = Nomatch"
| "deriv c Empty = Nomatch"
| "deriv c (Class P) = (if P c then Empty else Nomatch)"
| "deriv c (Seq r s) =
     (if nullable r then Alt (Seq (deriv c r) s) (deriv c s) else Seq (deriv c r) s)"
| "deriv c (Alt r s) = Alt (deriv c r) (deriv c s)"
| "deriv c (Star r) = Seq (deriv c r) (Star r)"

definition rx_test :: "rx \<Rightarrow> jsstring \<Rightarrow> bool" where
  "rx_test r s = nullable (fold deriv s r)"

text \<open>\<^verbatim>\<open>/^[^\s@]+@[^\s@]+\.[^\s@]+$/\<close>\<close>

definition not_space_at :: "jschar \<Rightarrow> bool" where
  "not_space_at c = (\<not> is_space c \<and> c \<noteq> 0x40)"

definition emailRx :: rx where
  "emailRx =
     Seq (Plus (Class not_space_at))
       (Seq (Class (\<lambda>c. c = 0x40))
          (Seq (Plus (Class not_space_at))
             (Seq (Class (\<lambda>c. c = 0x2E)) (Plus (Class not_space_at)))))"

subsection \<open>The submit handler and its timers\<close>

text \<open>
  The form controls of the document in document order. \<open>f_in_form\<close> says that the
  control belongs to \<^verbatim>\<open>#contactForm\<close>; \<^verbatim>\<open>$('#email')\<close> is looked up in the
  whole document. \<open>f_once\<close> counts the pending one-time \<^verbatim>\<open>input\<close> listeners that
  clear the border. \<^verbatim>\<open>#submitBtn\<close> and \<^verbatim>\<open>#formSuccess\<close> may be missing; the
  button's first \<^verbatim>\<open>span\<close> and first \<^verbatim>\<open>i\<close> may be missing too.
\<close>

record field =
  f_id :: jsstring
  f_required :: bool
  f_in_form :: bool
  f_value :: jsstring
  f_default :: jsstring
  f_border :: jsstring
  f_once :: nat

record submit_button =
  disabled :: bool
  span_text :: "jsstring option"
  icon_class :: "jsstring option"

datatype cf_callback = FinishSend | HideSuccess

datatype js_error = TypeError

record contact =
  controls :: "field list"
  submitBtn :: "submit_button option"
  formSuccess :: "jsstring list option"
  focused :: "nat option"
  cf_timers :: "cf_callback timers"

definition invalid_border :: jsstring where
  "invalid_border = ascii ''rgba(252, 90, 90, 0.7)''"

definition sending_label :: jsstring where
  "sending_label = ascii ''Sending'' @ [0x2026]"

definition missing :: "field \<Rightarrow> bool" where
  "missing f = (f_required f \<and> f_in_form f \<and> js_trim (f_value f) = [])"

definition mark_missing :: "field \<Rightarrow> field" where
  "mark_missing f =
     (if missing f then f\<lparr>f_border := invalid_border, f_once := Suc (f_once f)\<rparr> else f)"

fun first_index :: "('a \<Rightarrow> bool) \<Rightarrow> 'a list \<Rightarrow> nat option" where
  "first_index P [] = None"
| "first_index P (x # xs) = (if P x then Some 0 else map_option Suc (first_index P xs))"

definition start_send :: "contact \<Rightarrow> js_error + contact" where
  "start_send s =
     (case submitBtn s of
        None \<Rightarrow> Inl TypeError
      | Some b \<Rightarrow>
          (let b1 = b\<lparr>disabled := True,
                      span_text := map_option (\<lambda>_. sending_label) (span_text b),
                      icon_class := map_option (\<lambda>_. ascii ''fas fa-spinner fa-spin'') (icon_class b)\<rparr>
           in Inr (s\<lparr>submitBtn := Some b1,
                     cf_timers := snd (setTimeout FinishSend 1800 (cf_timers s))\<rparr>)))"

definition submit_handler :: "contact \<Rightarrow> js_error + contact" where
  "submit_handler s =
     (let valid = list_all (\<lambda>f. \<not> missing f) (controls s);
          s1 = s\<lparr>controls := map mark_missing (controls s)\<rparr>
      in if \<not> valid then Inr s1
         else
           (case first_index (\<lambda>f. f_id f = ascii ''email'') (controls s1) of
              None \<Rightarrow> start_send s1
            | Some i \<Rightarrow>
                if \<not> rx_test emailRx (f_value (controls s1 ! i))
                then Inr (s1\<lparr>controls := (controls s1)[i := (controls s1 ! i)\<lparr>f_border := invalid_border\<rparr>],
                             focused := Some i\<rparr>)
                else start_send s1))"

definition form_reset :: "field \<Rightarrow> field" where
  "form_reset f = (if f_in_form f then f\<lparr>f_value := f_default f\<rparr> else f)"

fun cf_fire :: "cf_callback \<Rightarrow> contact \<Rightarrow> contact" where
  "cf_fire FinishSend s =
     (let s1 = s\<lparr>controls := map form_reset (controls s),
                 submitBtn := map_option
                    (\<lambda>b. b\<lparr>disabled := False,
                           span_text := map_option (\<lambda>_. ascii ''Send Message'') (span_text b),
                           icon_class := map_option (\<lambda>_. ascii ''fas fa-paper-plane'') (icon_class b)\<rparr>)
                    (submitBtn s),
                 formSuccess := map_option (cl_add (ascii ''show'')) (formSuccess s)\<rparr>
      in s1\<lparr>cf_timers := snd (setTimeout HideSuccess 5000 (cf_timers s1))\<rparr>)"
| "cf_fire HideSuccess s =
     s\<lparr>formSuccess := map_option (cl_remove (ascii ''show'')) (formSuccess s)\<rparr>"

fun earliest :: "(nat \<times> nat \<times> 'cb) list \<Rightarrow> (nat \<times> nat \<times> 'cb) option" where
  "earliest [] = None"
| "earliest (x # xs) =
     (case earliest xs of
        None \<Rightarrow> Some x
      | Some y \<Rightarrow> if fst (snd y) < fst (snd x) then Some y else Some x)"

definition next_due :: "nat \<Rightarrow> (nat \<times> nat \<times> 'cb) list \<Rightarrow> (nat \<times> nat \<times> 'cb) option" where
  "next_due t q = earliest (filter (due_by t) q)"

definition cf_weight :: "(nat \<times> nat \<times> cf_callback) list \<Rightarrow> nat" where
  "cf_weight q = sum_list (map (\<lambda>x. case snd (snd x) of FinishSend \<Rightarrow> 2 | HideSuccess \<Rightarrow> 1) q)"

definition cf_fire_timer :: "nat \<times> nat \<times> cf_callback \<Rightarrow> contact \<Rightarrow> contact" where
  "cf_fire_timer x s =
     cf_fire (snd (snd x))
       (s\<lparr>cf_timers := (cf_timers s)\<lparr>now := max (now (cf_timers s)) (fst (snd x)),
                                       queue := drop_timer (fst x) (queue (cf_timers s))\<rparr>\<rparr>)"

lemma earliest_mem: "earliest q = Some x \<Longrightarrow> x \<in> set q"
  by (induction q arbitrary: x) (auto split: option.splits if_splits)

lemma next_due_mem: "next_due t q = Some x \<Longrightarrow> x \<in> set q"
  unfolding next_due_def by (drule earliest_mem) simp

lemma cf_weight_filter: "cf_weight (filter P q) \<le> cf_weight q"
  unfolding cf_weight_def by (induction q) auto

lemma cf_weight_drop:
  "x \<in> set q \<Longrightarrow>
   cf_weight (drop_timer (fst x) q) + (case snd (snd x) of FinishSend \<Rightarrow> 2 | HideSuccess \<Rightarrow> 1)
     \<le> cf_weight q"
proof (induction q)
  case Nil
  then show ?case by simp
next
  case (Cons y q)
  show ?case
  proof (cases "fst y = fst x")
    case True
    have "cf_weight (filter (\<lambda>z. fst z \<noteq> fst x) q) \<le> cf_weight q"
      by (rule cf_weight_filter)
    moreover have "x = y \<or> x \<in> set q" using Cons.prems by auto
    ultimately show ?thesis
      using True Cons.IH
      by (auto simp: drop_timer_def cf_weight_def split: cf_callback.splits)
  next
    case False
    then have "x \<in> set q" using Cons.prems by auto
    from Cons.IH [OF this] False show ?thesis
      by (simp add: drop_timer_def cf_weight_def)
  qed
qed

lemma cf_weight_fire:
  "x \<in> set (queue (cf_timers s)) \<Longrightarrow>
   cf_weight (queue (cf_timers (cf_fire_timer x s))) < cf_weight (queue (cf_timers s))"
  using cf_weight_drop [of x "queue (cf_timers s)"]
  by (cases "snd (snd x)") (auto simp: cf_fire_timer_def setTimeout_def cf_weight_def Let_def)

text \<open>
  The timers due by \<open>t\<close> run one after the other, each at its due time; a timer set
  by one of them runs too when it is due by \<open>t\<close>.
\<close>

function cf_run_due :: "nat \<Rightarrow> contact \<Rightarrow> contact" where
  "cf_run_due t s =
     (case next_due t (queue (cf_timers s)) of
        None \<Rightarrow> s
      | Some x \<Rightarrow> cf_run_due t (cf_fire_timer x s))"
  by pat_completeness auto
termination
proof (relation "measure (\<lambda>(t, s). cf_weight (queue (cf_timers s)))")
qed (auto dest!: next_due_mem intro: cf_weight_fire)

declare cf_run_due.simps [simp del]

definition cf_advance :: "nat \<Rightarrow> contact \<Rightarrow> contact" where
  "cf_advance t s =
     (let s' = cf_run_due t s
      in s'\<lparr>cf_timers := (cf_timers s')\<lparr>now := max (now (cf_timers s')) t\<rparr>\<rparr>)"

text \<open>
  A submit has started the simulated send: the button is disabled and the 1800 ms
  timer is the one new entry of the timer table.
\<close>

definition send_started :: "contact \<Rightarrow> js_error + contact \<Rightarrow> bool" where
  "send_started s r =
     (case r of
        Inl _ \<Rightarrow> False
      | Inr s' \<Rightarrow>
          (case submitBtn s' of None \<Rightarrow> False | Some b \<Rightarrow> disabled b)
          \<and> queue (cf_timers s') =
              queue (cf_timers s) @ [(next_id (cf_timers s), now (cf_timers s) + 1800, FinishSend)])"

section \<open>Typing effect\<close>

text \<open>
  The variables of \<^verbatim>\<open>initTypingEffect\<close> and the text of the \<^verbatim>\<open>.hero-roles\<close>
  element. \<^verbatim>\<open>word.slice(0, e)\<close> counts a negative \<open>e\<close> from the end of the word.
  \<^verbatim>\<open>words[wordIdx]\<close> outside the list is \<open>undefined\<close>, whose \<^verbatim>\<open>slice\<close> raises.
\<close>

record typing =
  wordIdx :: nat
  charIdx :: int
  deleting :: bool
  paused :: bool
  hero_text :: jsstring

datatype scheduled = TickIn nat | ResumeIn nat | Nothing

definition js_slice0 :: "jsstring \<Rightarrow> int \<Rightarrow> jsstring" where
  "js_slice0 word e =
     (if e < 0 then take (nat (max (int (length word) + e) 0)) word else take (nat e) word)"

definition hero_words :: "jsstring list" where
  "hero_words =
     [ascii ''Software Developer'', ascii ''AI Enthusiast'', ascii ''IT Support Specialist'',
      ascii ''SEO & Content Manager'']"

text \<open>
  One call of \<^verbatim>\<open>tick\<close>: the variables afterwards and the timer it sets, if any.
\<close>

definition tick :: "jsstring list \<Rightarrow> typing \<Rightarrow> js_error + typing \<times> scheduled" where
  "tick words s =
     (if wordIdx s < length words then
        (let word = words ! wordIdx s
         in if \<not> deleting s then
              (let s1 = s\<lparr>hero_text := js_slice0 word (charIdx s + 1), charIdx := charIdx s + 1\<rparr>
               in if charIdx s1 = int (length word)
                  then Inr (s1\<lparr>paused := True\<rparr>, ResumeIn 2000)
                  else Inr (s1, if \<not> paused s1 then TickIn 95 else Nothing))
            else
              (let s1 = s\<lparr>hero_text := js_slice0 word (charIdx s - 1), charIdx := charIdx s - 1\<rparr>;
                   s2 = (if charIdx s1 = 0
                         then s1\<lparr>deleting := False, wordIdx := (wordIdx s1 + 1) mod length words\<rparr>
                         else s1)
               in Inr (s2, if \<not> paused s2 then TickIn (if deleting s2 then 55 else 95)
                           else Nothing)))
      else Inl TypeError)"

text \<open>
  The timer that is pending runs: after its delay, either \<^verbatim>\<open>tick\<close> itself or the
  callback of the pause, which clears \<^verbatim>\<open>paused\<close>, sets \<^verbatim>\<open>deleting\<close> and calls
  \<^verbatim>\<open>tick\<close>. \<open>None\<close> when no timer is pending or the call raised.
\<close>

fun typing_fire ::
  "jsstring list \<Rightarrow> nat \<times> typing \<times> scheduled \<Rightarrow> (nat \<times> typing \<times> scheduled) option" where
  "typing_fire words (t, s, Nothing) = None"
| "typing_fire words (t, s, TickIn d) =
     (case tick words s of Inl _ \<Rightarrow> None | Inr (s', n) \<Rightarrow> Some (t + d, s', n))"
| "typing_fire words (t, s, ResumeIn d) =
     (case tick words (s\<lparr>paused := False, deleting := True\<rparr>) of
        Inl _ \<Rightarrow> None
      | Inr (s', n) \<Rightarrow> Some (t + d, s', n))"

text \<open>The first \<open>n\<close> displayed texts with their times, and the state after them.\<close>

fun typing_frames ::
  "jsstring list \<Rightarrow> nat \<Rightarrow> nat \<times> typing \<times> scheduled \<Rightarrow> (nat \<times> jsstring) list" where
  "typing_frames words 0 c = []"
| "typing_frames words (Suc n) c =
     (case typing_fire words c of
        None \<Rightarrow> []
      | Some c' \<Rightarrow> (fst c', hero_text (fst (snd c'))) # typing_frames words n c')"

fun typing_after ::
  "jsstring list \<Rightarrow> nat \<Rightarrow> nat \<times> typing \<times> scheduled \<Rightarrow> (nat \<times> typing \<times> scheduled) option" where
  "typing_after words 0 c = Some c"
| "typing_after words (Suc n) c =
     (case typing_fire words c of None \<Rightarrow> None | Some c' \<Rightarrow> typing_after words n c')"

definition typing_start :: typing where
  "typing_start = \<lparr>wordIdx = 0, charIdx = 0, deleting = False, paused = False, hero_text = []\<rparr>"

definition initTypingEffect :: "nat \<times> typing \<times> scheduled" where
  "initTypingEffect = (0, typing_start, TickIn 1200)"

section \<open>Invariants, example inputs and the meaning of patterns\<close>

definition open_page :: page where
  "open_page =
     \<lparr>mobileMenu = Some \<lparr>classList = [ascii ''mobile-menu'', ascii ''open''], aria_expanded = None\<rparr>,
      hamburger = Some \<lparr>classList = [ascii ''hamburger'', ascii ''open''],
                        aria_expanded = Some (ascii ''true'')\<rparr>,
      body_overflow = ascii ''hidden''\<rparr>"

text \<open>
  A width setter for the examples. It accepts the plain percentages, a whole number
  without a leading zero followed by \<open>%\<close>, and stores them as they are, which is what
  browsers do with these strings; it accepts nothing else. A browser rejects \<open>abc%\<close>
  as well; it accepts further forms of a width, which the examples do not use.
\<close>
definition plain_percentage :: "jsstring \<Rightarrow> bool" where
  "plain_percentage v =
     (case rev v of
        [] \<Rightarrow> False
      | c # rds \<Rightarrow>
          c = 0x25 \<and> rds \<noteq> [] \<and> list_all is_digit rds
          \<and> (if length rds = 1 then True else last rds \<noteq> 0x30))"

definition percent_setter :: "jsstring \<Rightarrow> jsstring option" where
  "percent_setter v = (if plain_percentage v then Some v else None)"

definition skill_bar :: "jsstring option \<Rightarrow> skill_fill" where
  "skill_bar w = \<lparr>data_width = w, style_width = [], width_setter = percent_setter\<rparr>"

definition two_bars :: skill_state where
  "two_bars = initSkillBars [skill_bar None, skill_bar (Some (ascii ''95'')), skill_bar (Some [])]"

definition abc_bar :: skill_state where
  "abc_bar = initSkillBars [skill_bar (Some (ascii ''abc''))]"

definition three_counters :: counter_state where
  "three_counters = initCounters [ascii ''N/A'', ascii ''0%'', ascii ''000'']"

definition about_section :: "section_el list" where
  "about_section = [\<lparr>sec_id = ascii ''about'', offsetTop = 500\<rparr>]"

definition about_link :: "nav_link list" where
  "about_link = [\<lparr>href = Some (ascii ''#about''), link_classes = [ascii ''nav-link'']\<rparr>]"

definition site_sections :: "section_el list" where
  "site_sections =
     [\<lparr>sec_id = ascii ''home'', offsetTop = 0\<rparr>, \<lparr>sec_id = ascii ''about'', offsetTop = 700\<rparr>,
      \<lparr>sec_id = ascii ''contact'', offsetTop = 1500\<rparr>]"

definition site_links :: "nav_link list" where
  "site_links =
     [\<lparr>href = Some (ascii ''#home''), link_classes = [ascii ''nav-link'', ascii ''active'']\<rparr>,
      \<lparr>href = Some (ascii ''#about''), link_classes = [ascii ''nav-link'']\<rparr>,
      \<lparr>href = Some (ascii ''#contact''), link_classes = [ascii ''nav-link'']\<rparr>]"

text \<open>
  After an invocation at time \<open>fst c\<close> exactly one call is scheduled: the one of
  this invocation, under timer id \<open>i\<close>.
\<close>
definition one_pending :: "nat \<Rightarrow> nat \<Rightarrow> nat \<times> 'a \<Rightarrow> 'a debounced \<Rightarrow> bool" where
  "one_pending d i c s =
     (timer s = Some i \<and> queue (db_timers s) = [(i, fst c + d, snd c)]
      \<and> now (db_timers s) = fst c \<and> next_id (db_timers s) = Suc i \<and> fn_calls s = [])"

definition text_field :: "string \<Rightarrow> string \<Rightarrow> field" where
  "text_field name v =
     \<lparr>f_id = ascii name, f_required = True, f_in_form = True, f_value = ascii v,
      f_default = [], f_border = [], f_once = 0\<rparr>"

definition send_button :: "string \<Rightarrow> submit_button" where
  "send_button label =
     \<lparr>disabled = False, span_text = Some (ascii label), icon_class = Some (ascii ''fas fa-paper-plane'')\<rparr>"

definition contact_form :: "string \<Rightarrow> string \<Rightarrow> string \<Rightarrow> contact" where
  "contact_form name email label =
     \<lparr>controls = [text_field ''name'' name, text_field ''email'' email, text_field ''message'' ''Hello''],
      submitBtn = Some (send_button label),
      formSuccess = Some [ascii ''form-success''],
      focused = None,
      cf_timers = no_timers\<rparr>"

text \<open>What a submit leaves after \<open>t\<close> ms without further events; the label of the button.\<close>
definition submit_then_wait :: "nat \<Rightarrow> contact \<Rightarrow> contact option" where
  "submit_then_wait t s =
     (case submit_handler s of
        Inl _ \<Rightarrow> None
      | Inr s1 \<Rightarrow> Some (cf_advance (now (cf_timers s) + t) s1))"

definition button_label :: "contact \<Rightarrow> jsstring option" where
  "button_label s = (case submitBtn s of None \<Rightarrow> None | Some b \<Rightarrow> span_text b)"

text \<open>
  The one-word list, and the frame \<open>r\<close> of one cycle over it: its delay after the
  first tick of the cycle and its text.
\<close>
definition ai_words :: "jsstring list" where
  "ai_words = [ascii ''AI Enthusiast'']"

definition ai_offset :: "nat \<Rightarrow> nat" where
  "ai_offset r = (if r < 13 then 95 * r else 12 * 95 + 2000 + 55 * (r - 13))"

definition ai_text :: "nat \<Rightarrow> jsstring" where
  "ai_text r = (if r < 13 then take (r + 1) (ascii ''AI Enthusiast'')
                else take (25 - r) (ascii ''AI Enthusiast''))"

text \<open>
  What the three callbacks have in common, for the handling \<open>f\<close> of one entry, the
  observed set \<open>obs\<close> and the log \<open>lg\<close> of applied effects: an entry either leaves
  both alone, or logs its target and unobserves it.
\<close>
definition single_fire ::
  "(entry \<Rightarrow> 's \<Rightarrow> 's) \<Rightarrow> ('s \<Rightarrow> nat set) \<Rightarrow> ('s \<Rightarrow> nat list) \<Rightarrow> bool" where
  "single_fire f obs lg =
     (\<forall>e s. (obs (f e s) = obs s \<and> lg (f e s) = lg s)
          \<or> (obs (f e s) = obs s - {target e} \<and> lg (f e s) = lg s @ [target e]))"

text \<open>An element that is still observed has no effect logged, and none has two.\<close>
definition fired_once :: "nat set \<Rightarrow> nat list \<Rightarrow> bool" where
  "fired_once obs lg = (\<forall>i. count_list lg i \<le> 1 \<and> (i \<in> obs \<longrightarrow> count_list lg i = 0))"

definition intersects :: "nat \<Rightarrow> entry list \<Rightarrow> bool" where
  "intersects i es = list_ex (\<lambda>e. target e = i \<and> isIntersecting e) es"

definition enters :: "nat \<Rightarrow> entry" where
  "enters i = \<lparr>target = i, isIntersecting = True\<rparr>"

definition leaves :: "nat \<Rightarrow> entry" where
  "leaves i = \<lparr>target = i, isIntersecting = False\<rparr>"

definition two_reveals :: reveal_state where
  "two_reveals = initReveal
     [\<lparr>parentElement = 7, outer_ancestors = [], visible = False\<rparr>,
      \<lparr>parentElement = 7, outer_ancestors = [], visible = False\<rparr>]"

definition one_entry_each :: "entry list \<Rightarrow> bool" where
  "one_entry_each es = distinct (map target es)"

text \<open>
  The strings a pattern matches, to state what the derivative matcher decides:
  \<open>rx_star A\<close> is any number of strings of \<open>A\<close> in a row.
\<close>
inductive_set rx_star :: "'a list set \<Rightarrow> 'a list set" for A :: "'a list set" where
  rx_star_none: "[] \<in> rx_star A"
| rx_star_more: "u \<in> A \<Longrightarrow> v \<in> rx_star A \<Longrightarrow> u @ v \<in> rx_star A"

fun lang :: "rx \<Rightarrow> jsstring set" where
  "lang Nomatch = {}"
| "lang Empty = {[]}"
| "lang (Class P) = {[c] | c. P c}"
| "lang (Seq r s) = {u @ v | u v. u \<in> lang r \<and> v \<in> lang s}"
| "lang (Alt r s) = lang r \<union> lang s"
| "lang (Star r) = rx_star (lang r)"

section \<open>Properties\<close>

subsection \<open>Active navigation link\<close>

lemma fold_current:
  "fold (\<lambda>sec current. if P sec then sec_id sec else current) secs cur
   = (case filter P secs of [] \<Rightarrow> cur | q # qs \<Rightarrow> sec_id (last (q # qs)))"
proof (induction secs arbitrary: cur)
  case Nil
  then show ?case by simp
next
  case (Cons a secs)
  then show ?case by (cases "filter P secs") auto
qed

lemma mark_link_active:
  "is_active (mark_link current l) \<longleftrightarrow> href l = Some (ascii ''#'' @ current)"
  by (simp add: is_active_def mark_link_def cl_contains_def cl_add_def cl_remove_def Let_def)

text \<open>
  Rounding. A positive \<open>m * 2 ^ e\<close> that does not overflow keeps its 53 leading bits;
  the double it rounds to lies between any two doubles that enclose the exact value,
  and it is the double \<open>D\<close> when the exact value is below \<open>D\<close> by less than half
  a unit in the last place.
\<close>

lemma bitlen_le: "bitlen n \<le> b \<longleftrightarrow> n < 2 ^ b"
proof (induction n arbitrary: b rule: bitlen.induct)
  case (1 n)
  show ?case
  proof (cases "n = 0")
    case True
    then show ?thesis by (simp add: bitlen.simps)
  next
    case False
    show ?thesis
    proof (cases b)
      case 0
      with False show ?thesis by (simp add: bitlen.simps)
    next
      case (Suc b')
      have "bitlen n \<le> Suc b' \<longleftrightarrow> bitlen (n div 2) \<le> b'"
        using False by (subst bitlen.simps) simp
      also have "\<dots> \<longleftrightarrow> n div 2 < 2 ^ b'" using 1 [OF False] .
      also have "\<dots> \<longleftrightarrow> n < 2 ^ Suc b'" by auto
      finally show ?thesis using Suc by simp
    qed
  qed
qed

lemma bitlen_upper: "n < 2 ^ bitlen n"
  using bitlen_le [of n "bitlen n"] by simp

lemma bitlen_lower: "53 < bitlen n \<Longrightarrow> 2 ^ (bitlen n - 1) \<le> n"
  using bitlen_le [of n "bitlen n - 1"] by (cases "n < 2 ^ (bitlen n - 1)") auto

lemma round_half_even_lower: "0 < d \<Longrightarrow> a div d \<le> round_half_even a d"
  by (simp add: round_half_even_def Let_def)

lemma round_half_even_upper: "0 < d \<Longrightarrow> round_half_even a d \<le> a div d + 1"
  by (simp add: round_half_even_def Let_def)

lemma round_half_even_dvd: "0 < d \<Longrightarrow> d dvd a \<Longrightarrow> round_half_even a d = a div d"
  by (auto simp add: round_half_even_def Let_def)


lemma round_half_even_53:
  assumes "53 < bitlen m"
  shows "round_half_even m (2 ^ (bitlen m - 53)) \<le> 2 ^ 53"
proof -
  have "m < 2 ^ (53 + (bitlen m - 53))" using bitlen_upper [of m] assms by simp
  then have "m < 2 ^ 53 * 2 ^ (bitlen m - 53)" by (simp only: power_add)
  then have "m div 2 ^ (bitlen m - 53) < 2 ^ 53"
    by (simp add: less_mult_imp_div_less)
  with round_half_even_upper [of "2 ^ (bitlen m - 53)" m] show ?thesis by simp
qed

lemma round_double_form:
  assumes "0 < m" and "- 1074 \<le> e" and "int (bitlen m) + e \<le> 1000"
  shows "round_double (int m) e
         = Finite (int (if bitlen m \<le> 53 then m else round_half_even m (2 ^ (bitlen m - 53))))
                  (e + int (bitlen m - 53))"
proof (cases "bitlen m \<le> 53")
  case True
  then have "max (int (bitlen m) - 53) (- 1074 - e) \<le> 0" using assms by simp
  then show ?thesis using assms True by (simp add: round_double_def Let_def)
next
  case False
  then have s: "max (int (bitlen m) - 53) (- 1074 - e) = int (bitlen m - 53)"
    and p: "0 < int (bitlen m - 53)" using assms by simp_all
  have "round_half_even m (2 ^ (bitlen m - 53)) < 2 ^ 54"
    using round_half_even_53 [of m] False by simp
  then have "bitlen (round_half_even m (2 ^ (bitlen m - 53))) \<le> 54"
    by (simp only: bitlen_le)
  then have o: "\<not> int (bitlen (round_half_even m (2 ^ (bitlen m - 53)))) + (e + int (bitlen m - 53)) > 1024"
    using assms False by simp
  show ?thesis using assms False p o
    by (simp add: round_double_def Let_def s del: of_nat_diff)
qed

lemma round_double_between:
  assumes "0 < m" and "- 1074 \<le> e" and "int (bitlen m) + e \<le> 1000"
    and "kl * 2 ^ jl \<le> m" and "m \<le> ku * 2 ^ ju" and "kl < 2 ^ 53" and "ku < 2 ^ 53"
  shows "\<exists>q. round_double (int m) e = Finite (int q) (e + int (bitlen m - 53))
             \<and> kl * 2 ^ jl \<le> q * 2 ^ (bitlen m - 53) \<and> q * 2 ^ (bitlen m - 53) \<le> ku * 2 ^ ju"
proof (cases "bitlen m \<le> 53")
  case True
  then have "round_double (int m) e = Finite (int m) (e + int (bitlen m - 53))"
    using round_double_form [OF assms(1-3)] by simp
  moreover have "kl * 2 ^ jl \<le> m * 2 ^ (bitlen m - 53) \<and> m * 2 ^ (bitlen m - 53) \<le> ku * 2 ^ ju"
    using assms True by simp
  ultimately show ?thesis by blast
next
  case False
  define s where "s = bitlen m - 53"
  define q where "q = round_half_even m (2 ^ s)"
  have rd: "round_double (int m) e = Finite (int q) (e + int s)"
    using round_double_form [OF assms(1-3)] False by (simp add: s_def q_def)
  have lo: "2 ^ (s + 52) \<le> m" using bitlen_lower [of m] False by (simp add: s_def)
  have hi: "m < 2 ^ (s + 53)" using bitlen_upper [of m] False by (simp add: s_def)
  have ql: "m div 2 ^ s \<le> q" and qu: "q \<le> m div 2 ^ s + 1"
    using round_half_even_lower [of "2 ^ s" m] round_half_even_upper [of "2 ^ s" m] by (simp_all add: q_def)
  have "2 ^ 52 * 2 ^ s \<le> m" using lo by (simp add: power_add mult.commute)
  then have "2 ^ 52 \<le> m div 2 ^ s" by (simp add: less_eq_div_iff_mult_less_eq)
  with ql have q52: "2 ^ 52 \<le> q" by simp
  have L: "kl * 2 ^ jl \<le> q * 2 ^ s"
  proof (cases "s \<le> jl")
    case True
    then have "(2::nat) ^ jl = 2 ^ (jl - s) * 2 ^ s"
      by (simp add: power_add [symmetric])
    then have e: "kl * 2 ^ jl = (kl * 2 ^ (jl - s)) * 2 ^ s"
      by (simp only: mult.assoc)
    with assms(4) have "(kl * 2 ^ (jl - s)) * 2 ^ s \<le> m" by (simp only:)
    then have "kl * 2 ^ (jl - s) \<le> m div 2 ^ s" by (simp only: less_eq_div_iff_mult_less_eq zero_less_power zero_less_numeral)
    with ql have "kl * 2 ^ (jl - s) \<le> q" by linarith
    then have "(kl * 2 ^ (jl - s)) * 2 ^ s \<le> q * 2 ^ s" by (rule mult_le_mono1)
    then show ?thesis by (simp only: e)
  next
    case False
    then have "jl + 1 \<le> s" by simp
    have "kl * 2 ^ jl \<le> 2 ^ 53 * 2 ^ jl" using assms(6) by simp
    also have "\<dots> = 2 ^ 52 * 2 ^ (jl + 1)" by simp
    also have "\<dots> \<le> 2 ^ 52 * 2 ^ s" using \<open>jl + 1 \<le> s\<close>
      by (intro mult_left_mono power_increasing) simp_all
    also have "\<dots> \<le> q * 2 ^ s" using q52 by simp
    finally show ?thesis .
  qed
  have U: "q * 2 ^ s \<le> ku * 2 ^ ju"
  proof (cases "s \<le> ju")
    case True
    then have "(2::nat) ^ ju = 2 ^ (ju - s) * 2 ^ s"
      by (simp add: power_add [symmetric])
    then have e: "ku * 2 ^ ju = (ku * 2 ^ (ju - s)) * 2 ^ s"
      by (simp only: mult.assoc)
    show ?thesis
    proof (cases "2 ^ s dvd m")
      case True
      then have "q = m div 2 ^ s" using round_half_even_dvd [of "2 ^ s" m] by (simp add: q_def)
      then have "q * 2 ^ s = m" using True by simp
      with assms(5) show ?thesis by simp
    next
      case False
      have le: "m \<le> (ku * 2 ^ (ju - s)) * 2 ^ s" using assms(5) by (simp only: e)
      have "m \<noteq> (ku * 2 ^ (ju - s)) * 2 ^ s"
      proof
        assume "m = (ku * 2 ^ (ju - s)) * 2 ^ s"
        then have "2 ^ s dvd m" by (simp only: dvd_triv_right)
        with False show False by simp
      qed
      with le have "m < (ku * 2 ^ (ju - s)) * 2 ^ s" by simp
      then have "m div 2 ^ s < ku * 2 ^ (ju - s)"
        by (simp only: div_less_iff_less_mult zero_less_power zero_less_numeral)
      with qu have "q \<le> ku * 2 ^ (ju - s)" by simp
      then have "q * 2 ^ s \<le> (ku * 2 ^ (ju - s)) * 2 ^ s" by (rule mult_le_mono1)
      then show ?thesis by (simp only: e)
    qed
  next
    case False
    then have "ju + 1 \<le> s" by simp
    have "ku * 2 ^ ju < 2 ^ 53 * 2 ^ ju" using assms(7) by simp
    also have "\<dots> = 2 ^ 52 * 2 ^ (ju + 1)" by simp
    also have "\<dots> \<le> 2 ^ 52 * 2 ^ s" using \<open>ju + 1 \<le> s\<close>
      by (intro mult_left_mono power_increasing) simp_all
    also have "\<dots> = 2 ^ (s + 52)" by (simp add: power_add)
    also have "\<dots> \<le> m" by (rule lo)
    finally have "ku * 2 ^ ju < m" .
    with assms(5) show ?thesis by simp
  qed
  from rd L U show ?thesis unfolding s_def by blast
qed


lemma round_double_nearest:
  assumes "0 < m" and "- 1074 \<le> e" and "int (bitlen m) + e \<le> 1000"
    and "m \<le> D" and "2 ^ (bitlen m - 53) dvd D" and "2 * (D - m) < 2 ^ (bitlen m - 53)"
  shows "\<exists>q. round_double (int m) e = Finite (int q) (e + int (bitlen m - 53))
             \<and> q * 2 ^ (bitlen m - 53) = D"
proof (cases "bitlen m \<le> 53")
  case True
  then have "round_double (int m) e = Finite (int m) (e + int (bitlen m - 53))"
    using round_double_form [OF assms(1-3)] by simp
  moreover have "m * 2 ^ (bitlen m - 53) = D" using assms(4,6) True by simp
  ultimately show ?thesis by blast
next
  case False
  define d :: nat where "d = 2 ^ (bitlen m - 53)"
  define q where "q = round_half_even m d"
  have d0: "0 < d" by (simp add: d_def)
  have rd: "round_double (int m) e = Finite (int q) (e + int (bitlen m - 53))"
    using round_double_form [OF assms(1-3)] False by (simp add: d_def q_def)
  from assms(5) obtain K where K: "D = d * K" unfolding d_def by (auto simp: dvd_def)
  have "q * d = D"
  proof (cases "D = m")
    case True
    then have "d dvd m" using K by (metis dvd_triv_left)
    then have "q = m div d" using round_half_even_dvd [OF d0] by (simp add: q_def)
    with \<open>d dvd m\<close> True show ?thesis by simp
  next
    case False
    with assms(4) have lt: "m < D" by simp
    then have "K \<noteq> 0" using K by (cases K) simp_all
    then obtain K' where K': "K = Suc K'" by (cases K) simp_all
    have D: "D = d + K' * d" using K K' by simp
    have small: "2 * (D - m) < d" using assms(6) by (simp add: d_def)
    define r where "r = d - (D - m)"
    have m: "m = r + K' * d" using D lt small by (simp add: r_def)
    have r: "r < d" using lt d0 by (simp add: r_def)
    have dv: "m div d = K'" and md: "m mod d = r" using r by (simp_all add: m)
    have "2 * r > d" using small lt by (simp add: r_def)
    then have "2 * (m mod d) > d" by (simp only: md)
    then have "q = K' + 1" by (simp add: q_def round_half_even_def Let_def dv)
    then show ?thesis using D by simp
  qed
  with rd show ?thesis unfolding d_def by blast
qed

text \<open>
  Whole pixels. For a whole \<open>h\<close> below \<open>2 ^ 31\<close> the double \<open>h * 0.3\<close> lies between
  \<open>\<lfloor>3 * h / 10\<rfloor>\<close> and that number plus \<open>15 / 16\<close>, and it is \<open>3 * h / 10\<close> when
  this is whole; adding a whole \<open>scrollY\<close> below \<open>2 ^ 31\<close> keeps it so. Hence for whole
  pixels a section's offset is at most the double of line 110 exactly when it is at
  most \<open>scrollY + 3 * innerHeight / 10\<close>.
\<close>

lemma offset_le_between:
  assumes "C * 2 ^ 50 \<le> q * 2 ^ s" and "q * 2 ^ s \<le> D * 2 ^ 50"
    and "16 * N \<le> C" and "D < 16 * (N + 1)"
  shows "offset_le t (Finite (int q) (int s - 54)) \<longleftrightarrow> t \<le> int N"
proof (cases "54 \<le> s")
  case True
  define V where "V = q * 2 ^ (s - 54)"
  have "(2::nat) ^ s = 2 ^ ((s - 54) + 54)" using True by simp
  then have "(2::nat) ^ s = 2 ^ (s - 54) * 2 ^ 54" by (simp only: power_add)
  then have "q * 2 ^ s = V * 2 ^ 54" by (simp only: V_def mult.assoc)
  with assms have "V = N" by simp
  moreover have "offset_le t (Finite (int q) (int s - 54)) \<longleftrightarrow> t \<le> int V"
    using True by (simp add: V_def nat_diff_distrib')
  ultimately show ?thesis by simp
next
  case False
  define p :: nat where "p = 2 ^ (54 - s)"
  have p0: "0 < p" by (simp add: p_def)
  have "(2::nat) ^ 54 = 2 ^ ((54 - s) + s)" using False by simp
  then have "(2::nat) ^ 54 = p * 2 ^ s" by (simp only: p_def power_add)
  then have e: "N * 2 ^ 54 = (N * p) * 2 ^ s" "(N + 1) * 2 ^ 54 = ((N + 1) * p) * 2 ^ s"
    by (simp_all only: mult.assoc)
  have "N * 2 ^ 54 \<le> q * 2 ^ s" using assms by simp
  then have lo: "N * p \<le> q" by (simp only: e mult_le_cancel2) simp
  have "q * 2 ^ s < (N + 1) * 2 ^ 54" using assms by simp
  then have hi: "q < (N + 1) * p" by (simp only: e mult_less_cancel2) 
  have o: "offset_le t (Finite (int q) (int s - 54)) \<longleftrightarrow> t * int p \<le> int q"
    using False by (simp add: p_def nat_diff_distrib')
  show ?thesis
  proof (cases "t \<le> int N")
    case True
    then have "t * int p \<le> int N * int p" by (simp add: mult_right_mono)
    also have "\<dots> \<le> int q" using lo by (metis of_nat_mult of_nat_le_iff)
    finally show ?thesis using o True by simp
  next
    case False
    then have "int (N + 1) \<le> t" by simp
    then have "int (N + 1) * int p \<le> t * int p" by (simp add: mult_right_mono)
    moreover have "int q < int (N + 1) * int p" using hi by (metis of_nat_mult of_nat_less_iff)
    ultimately show ?thesis using o False by simp
  qed
qed


lemma times_0_3_pixels:
  assumes "0 < h" and "h < 2 ^ 31"
  shows "\<exists>q s. times_0_3 (int h) = Finite (int q) (int s - 54) \<and> s \<le> 50 \<and> 0 < q
               \<and> (16 * (3 * h div 10)) * 2 ^ 50 \<le> q * 2 ^ s
               \<and> q * 2 ^ s \<le> (16 * (3 * h div 10) + 15) * 2 ^ 50"
proof -
  define a where "a = h * 5404319552844595"
  define n where "n = 3 * h div 10"
  define r where "r = 3 * h mod 10"
  define s where "s = bitlen a - 53"
  have t: "times_0_3 (int h) = round_double (int a) (- 54)"
    by (simp add: times_0_3_def a_def)
  have h3: "3 * h = 10 * n + r" and r9: "r \<le> 9" by (simp_all add: n_def r_def)
  have a0: "0 < a" using assms by (simp add: a_def)
  have "a < 2 ^ 100" using assms by (simp add: a_def)
  then have b100: "bitlen a \<le> 100" by (simp only: bitlen_le)
  then have b: "int (bitlen a) + (- 54) \<le> 1000" and s50: "s \<le> 50" by (simp_all add: s_def)
  have e: "- 54 + int s = int s - 54" by simp
  show ?thesis
  proof (cases "r = 0")
    case False
    have lo: "(16 * n + 1) * 2 ^ 50 \<le> a" using h3 r9 False assms by (simp add: a_def)
    have hi: "a \<le> (16 * n + 15) * 2 ^ 50" using h3 r9 assms by (simp add: a_def)
    have k: "16 * n + 1 < 2 ^ 53" "16 * n + 15 < 2 ^ 53" using h3 assms by simp_all
    from round_double_between [OF a0 _ b lo hi k] obtain q
      where q: "round_double (int a) (- 54) = Finite (int q) (- 54 + int s)"
        "(16 * n + 1) * 2 ^ 50 \<le> q * 2 ^ s" "q * 2 ^ s \<le> (16 * n + 15) * 2 ^ 50"
      unfolding s_def by auto
    have q0: "0 < q" using q(2) by (cases "q = 0") simp_all
    have lo': "(16 * n) * 2 ^ 50 \<le> q * 2 ^ s" using q(2) by simp
    show ?thesis unfolding n_def [symmetric]
    proof (intro exI conjI)
      show "times_0_3 (int h) = Finite (int q) (int s - 54)" by (simp only: t q(1) e)
    qed (fact s50 q0 lo' q(3))+
  next
    case True
    have n0: "0 < n" using h3 True assms by simp
    have le: "a \<le> n * 2 ^ 54" using h3 True by (simp add: a_def)
    have "s \<le> 54" using s50 by simp
    then have "(2::nat) ^ s dvd 2 ^ 54" by (rule le_imp_power_dvd)
    then have dv: "2 ^ (bitlen a - 53) dvd n * 2 ^ 54" unfolding s_def by (rule dvd_mult)
    have "\<not> a < 2 ^ 52" using assms by (simp add: a_def)
    then have "\<not> bitlen a \<le> 52" using bitlen_le [of a 52] by blast
    then have "bitlen a = s + 53" by (simp add: s_def)
    then have "a < 2 ^ (s + 53)" using bitlen_upper [of a] by simp
    then have u: "a < 2 ^ s * 2 ^ 53" by (simp only: power_add)
    have "(2 * (n * 2 ^ 54 - a)) * 2 ^ 53 \<le> a" using h3 True assms by (simp add: a_def)
    from this u have "(2 * (n * 2 ^ 54 - a)) * 2 ^ 53 < 2 ^ s * 2 ^ 53" by (rule le_less_trans)
    then have near: "2 * (n * 2 ^ 54 - a) < 2 ^ (bitlen a - 53)"
      unfolding s_def by (simp only: mult_less_cancel2)
    from round_double_nearest [OF a0 _ b le dv near] obtain q
      where q: "round_double (int a) (- 54) = Finite (int q) (- 54 + int s)"
        "q * 2 ^ s = n * 2 ^ 54"
      unfolding s_def by auto
    have q0: "0 < q" using q(2) n0 by (cases "q = 0") simp_all
    have lo': "(16 * n) * 2 ^ 50 \<le> q * 2 ^ s" and hi': "q * 2 ^ s \<le> (16 * n + 15) * 2 ^ 50"
      by (simp_all add: q(2))
    show ?thesis unfolding n_def [symmetric]
    proof (intro exI conjI)
      show "times_0_3 (int h) = Finite (int q) (int s - 54)" by (simp only: t q(1) e)
    qed (fact s50 q0 lo' hi')+
  qed
qed

lemma js_plus_pixels:
  assumes "s1 \<le> 50" and "0 < q1" and "y < 2 ^ 31" and "n < 2 ^ 31"
    and "(16 * n) * 2 ^ 50 \<le> q1 * 2 ^ s1" and "q1 * 2 ^ s1 \<le> (16 * n + 15) * 2 ^ 50"
  shows "\<exists>q2 s2. js_plus (int y, 0) (Finite (int q1) (int s1 - 54)) = Finite (int q2) (int s2 - 54)
               \<and> (16 * (y + n)) * 2 ^ 50 \<le> q2 * 2 ^ s2
               \<and> q2 * 2 ^ s2 \<le> (16 * (y + n) + 15) * 2 ^ 50"
proof -
  define P :: nat where "P = 2 ^ s1"
  define R :: nat where "R = 2 ^ (54 - s1)"
  define R50 :: nat where "R50 = 2 ^ (50 - s1)"
  define m where "m = y * R + q1"
  define \<sigma> where "\<sigma> = bitlen m - 53"
  have P0: "0 < P" by (simp add: P_def)
  have "(2::nat) ^ 54 = 2 ^ ((54 - s1) + s1)" "(2::nat) ^ 50 = 2 ^ ((50 - s1) + s1)"
    using assms(1) by simp_all
  then have RP: "R * P = 2 ^ 54" and R50P: "R50 * P = 2 ^ 50"
    by (simp_all only: R_def R50_def P_def power_add)
  have mP: "m * P = y * 2 ^ 54 + q1 * P"
    by (simp only: m_def distrib_right mult.assoc RP)
  have j: "js_plus (int y, 0) (Finite (int q1) (int s1 - 54)) = round_double (int m) (int s1 - 54)"
  proof -
    have "min 0 (int s1 - 54) = int s1 - 54" using assms(1) by simp
    moreover have "nat (54 - int s1) = 54 - s1" by simp
    ultimately show ?thesis by (simp add: Let_def m_def R_def)
  qed
  have m0: "0 < m" using assms(2) by (simp add: m_def)
  have a5: "(16 * n) * 2 ^ 50 \<le> q1 * P" and a6: "q1 * P \<le> (16 * n + 15) * 2 ^ 50"
    using assms(5,6) by (simp_all only: P_def)
  have "m * 1 \<le> m * P" using P0 by (intro mult_le_mono2) simp
  also have "\<dots> < 2 ^ 100" using assms(3,4) a6 by (simp add: mP)
  finally have "m < 2 ^ 100" by simp
  then have "bitlen m \<le> 100" by (simp only: bitlen_le)
  then have b: "int (bitlen m) + (int s1 - 54) \<le> 1000" using assms(1) by simp
  have "(16 * (y + n)) * R50 * P \<le> m * P"
    using a5 by (simp only: mult.assoc R50P mP) simp
  then have lo: "(16 * (y + n)) * 2 ^ (50 - s1) \<le> m"
    using P0 by (simp only: mult_le_cancel2 R50_def)
  have "m * P \<le> (16 * (y + n) + 15) * R50 * P"
    using a6 by (simp only: mult.assoc R50P mP) simp
  then have hi: "m \<le> (16 * (y + n) + 15) * 2 ^ (50 - s1)"
    using P0 by (simp only: mult_le_cancel2 R50_def)
  have k: "16 * (y + n) < 2 ^ 53" "16 * (y + n) + 15 < 2 ^ 53" using assms(3,4) by simp_all
  from round_double_between [OF m0 _ b lo hi k] obtain q
    where q: "round_double (int m) (int s1 - 54) = Finite (int q) (int s1 - 54 + int \<sigma>)"
      "(16 * (y + n)) * R50 \<le> q * 2 ^ \<sigma>" "q * 2 ^ \<sigma> \<le> (16 * (y + n) + 15) * R50"
    unfolding \<sigma>_def R50_def by auto
  have e: "int s1 - 54 + int \<sigma> = int (\<sigma> + s1) - 54" by simp
  have pw: "q * 2 ^ \<sigma> * P = q * 2 ^ (\<sigma> + s1)" by (simp only: P_def power_add mult.assoc)
  have c: "k * R50 * P = k * 2 ^ 50" for k by (simp only: mult.assoc R50P)
  have "(16 * (y + n)) * R50 * P \<le> q * 2 ^ \<sigma> * P" using q(2) by (rule mult_le_mono1)
  then have 1: "(16 * (y + n)) * 2 ^ 50 \<le> q * 2 ^ (\<sigma> + s1)"
    by (simp only: pw c)
  have "q * 2 ^ \<sigma> * P \<le> (16 * (y + n) + 15) * R50 * P" using q(3) by (rule mult_le_mono1)
  then have 2: "q * 2 ^ (\<sigma> + s1) \<le> (16 * (y + n) + 15) * 2 ^ 50"
    by (simp only: pw c)
  from j q(1) 1 2 show ?thesis unfolding e by metis
qed

lemma scrollPos_whole_pixels:
  assumes "0 \<le> y" and "y < 2 ^ 31" and "0 \<le> h" and "h < 2 ^ 31"
  shows "offset_le t (scrollPos (y, 0) h) \<longleftrightarrow> 10 * t \<le> 10 * y + 3 * h"
proof -
  obtain ny nh where y: "y = int ny" and h: "h = int nh"
    using assms(1,3) by (metis nonneg_int_cases)
  have ny: "ny < 2 ^ 31" and nh: "nh < 2 ^ 31" using assms(2,4) by (simp_all add: y h)
  show ?thesis
  proof (cases "nh = 0")
    case True
    have "times_0_3 0 = Finite 0 0" by (simp add: times_0_3_def round_double_def)
    then have "scrollPos (y, 0) h = round_double (int ny) 0"
      by (simp add: scrollPos_def True y h)
    also have "\<dots> = Finite (int ny) 0"
    proof (cases "ny = 0")
      case True
      then show ?thesis by (simp add: round_double_def)
    next
      case False
      have "ny < 2 ^ 53" using ny by simp
      then have "bitlen ny \<le> 53" by (simp only: bitlen_le)
      then show ?thesis using False round_double_form [of ny 0] by simp
    qed
    finally show ?thesis by (simp add: True y h)
  next
    case False
    define n where "n = 3 * nh div 10"
    have n: "n < 2 ^ 31" using nh by (simp add: n_def)
    from False have "0 < nh" by simp
    from times_0_3_pixels [OF this nh] obtain q1 s1
      where a: "times_0_3 (int nh) = Finite (int q1) (int s1 - 54)" "s1 \<le> 50" "0 < q1"
        "(16 * n) * 2 ^ 50 \<le> q1 * 2 ^ s1" "q1 * 2 ^ s1 \<le> (16 * n + 15) * 2 ^ 50"
      unfolding n_def by blast
    from js_plus_pixels [OF a(2,3) ny n a(4,5)] obtain q2 s2
      where b: "js_plus (int ny, 0) (Finite (int q1) (int s1 - 54)) = Finite (int q2) (int s2 - 54)"
        "(16 * (ny + n)) * 2 ^ 50 \<le> q2 * 2 ^ s2" "q2 * 2 ^ s2 \<le> (16 * (ny + n) + 15) * 2 ^ 50"
      by blast
    have p: "scrollPos (y, 0) h = Finite (int q2) (int s2 - 54)"
      by (simp only: scrollPos_def y h a(1) b(1))
    have "offset_le t (scrollPos (y, 0) h) \<longleftrightarrow> t \<le> int (ny + n)"
      unfolding p by (rule offset_le_between [OF b(2,3)]) simp_all
    also have "\<dots> \<longleftrightarrow> 10 * t \<le> 10 * y + 3 * h"
    proof -
      have "3 * nh = 10 * n + 3 * nh mod 10" by (simp add: n_def)
      moreover have "3 * nh mod 10 < 10" by simp
      ultimately show ?thesis unfolding y h by linarith
    qed
    finally show ?thesis .
  qed
qed

lemma current_section_whole_pixels:
  assumes "0 \<le> y" and "y < 2 ^ 31" and "0 \<le> h" and "h < 2 ^ 31"
  shows "current_section secs (scrollPos (y, 0) h)
         = (case filter (\<lambda>sec. 10 * offsetTop sec \<le> 10 * y + 3 * h) secs of
              [] \<Rightarrow> []
            | q # qs \<Rightarrow> sec_id (last (q # qs)))"
  by (simp only: current_section_def fold_current scrollPos_whole_pixels [OF assms])

lemma round_double_300: "times_0_3 1000 = Finite 5277655813324800 (- 44)"
  by (simp add: times_0_3_def round_double_def round_half_even_def bitlen.simps Let_def)

text \<open>
  Two scroll positions where the double differs from the exact sum: \<open>1.6 + 768 * 0.3\<close>
  is \<open>231.99999999999997\<close>, below 232, and \<open>5.6 + 568 * 0.3\<close> is \<open>176\<close>, although
  the double \<open>5.6\<close> is below 5.6.
\<close>

lemma scrollPos_1_6_768:
  "scrollPos (3602879701896397, - 51) 768 = Finite 8162774324609023 (- 45)
   \<and> \<not> offset_le 232 (scrollPos (3602879701896397, - 51) 768)
   \<and> offset_le 231 (scrollPos (3602879701896397, - 51) 768)"
  by (simp add: scrollPos_def times_0_3_def round_double_def round_half_even_def bitlen.simps
      Let_def)

lemma scrollPos_5_6_568:
  "offset_le 176 (scrollPos (3152519739159347, - 49) 568)
   \<and> \<not> offset_le 177 (scrollPos (3152519739159347, - 49) 568)"
  by (simp add: scrollPos_def times_0_3_def round_double_def round_half_even_def bitlen.simps
      Let_def)

text \<open>
  Claim C1, amended. After \<open>updateActiveNavLink\<close> a navigation link carries
  \<open>active\<close> exactly when its \<open>href\<close> is \<open>#\<close> followed by \<open>current\<close>, where
  \<open>current\<close> is the id of the last section in document order whose top offset is
  at most the double that \<open>scrollY + innerHeight * 0.3\<close> evaluates to, and the empty
  string when there is no such section. The number of active links is the number of
  links with that \<open>href\<close>: it is one exactly when one link has it.
\<close>

theorem active_link_characterisation:
  "length (updateActiveNavLink secs links y h) = length links
   \<and> (\<forall>i < length links.
        is_active (updateActiveNavLink secs links y h ! i)
        \<longleftrightarrow> href (links ! i) = Some (ascii ''#'' @ current_section secs (scrollPos y h)))
   \<and> current_section secs (scrollPos y h)
       = (case filter (\<lambda>sec. offset_le (offsetTop sec) (js_plus y (times_0_3 h))) secs of
            [] \<Rightarrow> []
          | q # qs \<Rightarrow> sec_id (last (q # qs)))
   \<and> active_count (updateActiveNavLink secs links y h)
       = length (filter (\<lambda>l. href l = Some (ascii ''#'' @ current_section secs (scrollPos y h))) links)"
proof -
  have "active_count (map (mark_link c) links) = length (filter (\<lambda>l. href l = Some (ascii ''#'' @ c)) links)" for c
    by (induction links) (simp_all add: active_count_def mark_link_active)
  then show ?thesis
    by (simp add: updateActiveNavLink_def Let_def mark_link_active current_section_def
        fold_current scrollPos_def)
qed

theorem active_link_characterisation_witness:
  "map is_active (updateActiveNavLink site_sections site_links (500, 0) 1000) = [False, True, False]
   \<and> current_section site_sections (scrollPos (500, 0) 1000) = ascii ''about''
   \<and> active_count (updateActiveNavLink site_sections site_links (500, 0) 1000) = 1"
proof -
  have p: "scrollPos (500, 0) 1000 = Finite 7036874417766400 (- 43)"
    by (simp add: scrollPos_def round_double_300) (simp add: round_double_def round_half_even_def bitlen.simps Let_def)
  from active_link_characterisation [of site_sections site_links "(500, 0)" 1000] show ?thesis
    by (simp add: p site_sections_def site_links_def ascii_def updateActiveNavLink_def
        mark_link_def is_active_def cl_contains_def cl_add_def cl_remove_def Let_def
        current_section_def active_count_def)
qed

text \<open>
  The claim as stated fails above the first section: with one section at offset 500,
  its link, a viewport of height 1000 and no scrolling, no link is active.
\<close>

theorem no_active_link_counterexample:
  "active_count (updateActiveNavLink about_section about_link (0, 0) 1000) = 0"
proof -
  have p: "scrollPos (0, 0) 1000 = Finite 5277655813324800 (- 44)"
    by (simp add: scrollPos_def round_double_300) (simp add: round_double_def round_half_even_def bitlen.simps Let_def)
  show ?thesis
    by (simp add: p about_section_def about_link_def ascii_def updateActiveNavLink_def
        mark_link_def is_active_def cl_contains_def cl_add_def cl_remove_def Let_def
        current_section_def active_count_def)
qed

subsection \<open>Debounce\<close>

lemma one_pending_first: "one_pending d 1 c (invoke d c debounce_init)"
  by (simp add: one_pending_def invoke_def wrapper_def db_advance_def debounce_init_def
      no_timers_def clearTimeout_def setTimeout_def elapse_def due_timers_def Let_def)

lemma one_pending_next:
  assumes "one_pending d i c s" and "fst c \<le> fst c'" and "fst c' < fst c + d"
  shows "one_pending d (Suc i) c' (invoke d c' s)"
  using assms
  by (simp add: one_pending_def invoke_def wrapper_def db_advance_def clearTimeout_def
      setTimeout_def elapse_def due_timers_def due_by_def drop_timer_def Let_def max_def)

lemma one_pending_burst:
  "one_pending d i c s \<Longrightarrow> burst d (c # cs) \<Longrightarrow>
   one_pending d (i + length cs) (last (c # cs)) (fold (invoke d) cs s)"
proof (induction cs arbitrary: i c s)
  case Nil
  then show ?case by simp
next
  case (Cons c' cs)
  from Cons.prems have step: "one_pending d (Suc i) c' (invoke d c' s)"
    by (simp add: one_pending_next)
  from Cons.prems have "burst d (c' # cs)" by simp
  from Cons.IH [OF step this] show ?case by simp
qed

lemma one_pending_advance:
  "one_pending d i c s \<Longrightarrow>
   fn_calls (db_advance T s) = (if fst c + d \<le> T then [(fst c + d, snd c)] else [])"
  by (simp add: one_pending_def db_advance_def due_timers_def due_by_def)

text \<open>
  Claim C2. For every delay \<open>d\<close> and every non-empty sequence of invocations of the
  wrapper in which consecutive invocations are less than \<open>d\<close> apart, no call of
  \<open>fn\<close> has run by the last invocation, exactly one call is then pending (every
  earlier one was cancelled), and as time passes \<open>fn\<close> runs exactly once, at \<open>d\<close>
  after the last invocation and with the arguments of the last invocation.
\<close>

theorem debounce_burst_once:
  assumes "cs \<noteq> []" and "burst d cs"
  shows "fn_calls (invocations d cs debounce_init) = []
       \<and> queue (db_timers (invocations d cs debounce_init))
           = [(length cs, fst (last cs) + d, snd (last cs))]
       \<and> (\<forall>T. fn_calls (db_advance T (invocations d cs debounce_init))
              = (if fst (last cs) + d \<le> T then [(fst (last cs) + d, snd (last cs))] else []))"
proof -
  from assms(1) obtain c cs' where cs: "cs = c # cs'" by (cases cs) auto
  have "one_pending d (1 + length cs') (last (c # cs')) (fold (invoke d) cs' (invoke d c debounce_init))"
    using one_pending_burst [OF one_pending_first] assms(2) cs by blast
  then have p: "one_pending d (length cs) (last cs) (invocations d cs debounce_init)"
    by (simp add: cs invocations_def)
  from p one_pending_advance [OF p] show ?thesis
    by (simp add: one_pending_def)
qed

theorem debounce_burst_once_witness:
  "fn_calls (db_advance 149 (invocations 100 [(0, ''a''), (30, ''b''), (50, ''c'')] debounce_init)) = []
   \<and> fn_calls (db_advance 150 (invocations 100 [(0, ''a''), (30, ''b''), (50, ''c'')] debounce_init))
       = [(150, ''c'')]
   \<and> fn_calls (db_advance 1000 (invocations 100 [(0, ''a''), (30, ''b''), (50, ''c'')] debounce_init))
       = [(150, ''c'')]"
  using debounce_burst_once [of "[(0, ''a''), (30, ''b''), (50, ''c'')]" 100]
  by simp

subsection \<open>Counter animation\<close>

lemma ceil_div_step:
  assumes "0 < b" and "b < a"
  shows "js_ceil_div a b = Suc (js_ceil_div (a - b) b)" and "1 \<le> js_ceil_div (a - b) b"
proof -
  have "a + (b - 1) = (a - b + (b - 1)) + b" using assms by simp
  then have "(a + (b - 1)) div b = (a - b + (b - 1)) div b + 1"
    using assms(1) by (metis div_add_self2 less_numeral_extra(3))
  then show "js_ceil_div a b = Suc (js_ceil_div (a - b) b)" by (simp add: js_ceil_div_def)
  have "b \<le> a - b + (b - 1)" using assms by simp
  then have "b div b \<le> (a - b + (b - 1)) div b" by (rule div_le_mono)
  then show "1 \<le> js_ceil_div (a - b) b" using assms(1) by (simp add: js_ceil_div_def)
qed

lemma ceil_div_small:
  assumes "0 < b" and "a \<le> b"
  shows "js_ceil_div a b \<le> 1"
proof -
  have "a + (b - 1) < 2 * b" using assms by simp
  then have "(a + (b - 1)) div b < 2" using assms(1) by (simp add: div_less_iff_less_mult)
  then show ?thesis by (simp add: js_ceil_div_def)
qed

lemma map_upt_shift: "map f [1..<Suc (Suc n)] = f 1 # map (\<lambda>k. f (Suc k)) [1..<Suc n]"
proof -
  have "[1..<Suc (Suc n)] = 1 # map Suc [1..<Suc n]"
    by (metis One_nat_def map_Suc_upt upt_conv_Cons zero_less_Suc Suc_less_eq)
  then show ?thesis by (simp add: comp_def)
qed

lemma counter_loop_closed:
  "0 < iv_end iv \<Longrightarrow>
   counter_loop t iv =
     map (\<lambda>k. (t + 38 * k,
               show_nat (min (iv_start iv + k * iv_step iv) (iv_end iv)) @ iv_suffix iv))
         [1..<Suc (max 1 (js_ceil_div (iv_end iv - iv_start iv) (iv_step iv)))]"
proof (induction t iv rule: counter_loop.induct)
  case (1 t iv)
  let ?st = "iv_step iv"
  from "1.prems" have st: "0 < ?st" by (simp add: iv_step_def js_ceil_div_def)
  show ?case
  proof (cases "iv_start iv + ?st < iv_end iv")
    case False
    then have "iv_end iv - iv_start iv \<le> ?st" by simp
    from ceil_div_small [OF st this]
    have n: "max (Suc 0) (js_ceil_div (iv_end iv - iv_start iv) ?st) = Suc 0" by simp
    from False show ?thesis
      by (subst counter_loop.simps) (simp add: interval_tick_def Let_def n min_def)
  next
    case True
    let ?iv' = "iv\<lparr>iv_start := iv_start iv + ?st\<rparr>"
    have tick: "interval_tick iv = (?iv', show_nat (iv_start iv + ?st) @ iv_suffix iv, False)"
      using True by (simp add: interval_tick_def Let_def min_def)
    have step': "iv_step ?iv' = ?st" by (simp add: iv_step_def)
    from True have lt: "?st < iv_end iv - iv_start iv" by simp
    have n: "js_ceil_div (iv_end iv - iv_start iv) ?st
             = Suc (js_ceil_div (iv_end iv - iv_start iv - ?st) ?st)"
      and n': "1 \<le> js_ceil_div (iv_end iv - iv_start iv - ?st) ?st"
      using ceil_div_step [OF st lt] by simp_all
    have IH: "counter_loop (t + 38) ?iv' =
       map (\<lambda>k. (t + 38 + 38 * k,
               show_nat (min (iv_start iv + ?st + k * ?st) (iv_end iv)) @ iv_suffix iv))
         [1..<Suc (js_ceil_div (iv_end iv - iv_start iv - ?st) ?st)]"
      using "1.IH" [OF tick [symmetric] refl] "1.prems" n' by (simp add: step' max_def)
    let ?f = "\<lambda>k. (t + 38 * k,
               show_nat (min (iv_start iv + k * ?st) (iv_end iv)) @ iv_suffix iv)"
    have head: "(t + 38, show_nat (iv_start iv + ?st) @ iv_suffix iv) = ?f 1"
      using True by (simp add: min_def)
    have body: "(\<lambda>k. (t + 38 + 38 * k,
               show_nat (min (iv_start iv + ?st + k * ?st) (iv_end iv)) @ iv_suffix iv))
             = (\<lambda>k. ?f (Suc k))"
      by (rule ext) (simp add: add.assoc)
    have "counter_loop t iv = (t + 38, show_nat (iv_start iv + ?st) @ iv_suffix iv)
            # counter_loop (t + 38) ?iv'"
      by (subst counter_loop.simps) (simp add: tick)
    also have "\<dots> = ?f 1 # map (\<lambda>k. ?f (Suc k))
                          [1..<Suc (js_ceil_div (iv_end iv - iv_start iv - ?st) ?st)]"
      by (simp only: IH head body)
    also have "\<dots> = map ?f [1..<Suc (Suc (js_ceil_div (iv_end iv - iv_start iv - ?st) ?st))]"
      by (simp only: map_upt_shift)
    finally show ?thesis using n n' by (simp only: max_def) simp
  qed
qed

lemma counter_frames_closed:
  assumes "parseInt_digits (filter is_digit txt) = Some n" and "0 < n"
  shows "counter_frames t txt =
           map (\<lambda>k. (t + 38 * k,
                     show_nat (min (k * js_ceil_div n 35) n) @ filter (\<lambda>c. \<not> is_digit c) txt))
               [1..<Suc (js_ceil_div n (js_ceil_div n 35))]"
proof -
  let ?iv = "\<lparr>iv_el = 0, iv_start = 0, iv_end = n, iv_suffix = filter (\<lambda>c. \<not> is_digit c) txt\<rparr>"
  have st: "0 < js_ceil_div n 35" using assms(2) by (simp add: js_ceil_div_def)
  have "1 \<le> js_ceil_div n (js_ceil_div n 35)"
  proof -
    have "js_ceil_div n 35 \<le> n + (js_ceil_div n 35 - 1)" using assms(2) by simp
    then have "js_ceil_div n 35 div js_ceil_div n 35 \<le> (n + (js_ceil_div n 35 - 1)) div js_ceil_div n 35"
      by (rule div_le_mono)
    then show ?thesis using st by (simp add: js_ceil_div_def [of n "js_ceil_div n 35"])
  qed
  then have m: "max 1 (js_ceil_div n (js_ceil_div n 35)) = js_ceil_div n (js_ceil_div n 35)"
    by simp
  have "counter_frames t txt = counter_loop t ?iv"
    using assms by (simp add: counter_frames_def counter_entry_def initCounters_def Let_def)
  also have "\<dots> = map (\<lambda>k. (t + 38 * k,
                     show_nat (min (k * js_ceil_div n 35) n) @ filter (\<lambda>c. \<not> is_digit c) txt))
               [1..<Suc (max 1 (js_ceil_div n (js_ceil_div n 35)))]"
    using counter_loop_closed [of ?iv t] assms(2) by (simp add: iv_step_def)
  finally show ?thesis by (simp only: m)
qed

lemma trailing_non_digits:
  assumes "\<forall>c \<in> set ds. is_digit c" and "\<forall>c \<in> set suf. \<not> is_digit c"
  shows "filter (\<lambda>c. \<not> is_digit c) (ds @ suf) = suf" and "non_digit_suffix (ds @ suf) = suf"
proof -
  show "filter (\<lambda>c. \<not> is_digit c) (ds @ suf) = suf"
    using assms by (simp add: filter_empty_conv filter_id_conv)
  have "takeWhile (\<lambda>c. \<not> is_digit c) (rev suf @ rev ds) = rev suf"
  proof (cases ds rule: rev_cases)
    case Nil
    then show ?thesis using assms(2) by (simp add: takeWhile_eq_all_conv)
  next
    case (snoc ys y)
    then show ?thesis using assms by (simp add: takeWhile_tail takeWhile_eq_all_conv)
  qed
  then show "non_digit_suffix (ds @ suf) = suf" by (simp add: non_digit_suffix_def)
qed

text \<open>
  Claim C3, amended. For a counter element whose text parses to \<open>n > 0\<close>, the
  \<open>k\<close>-th frame is displayed \<open>38 * k\<close> ms after the entry was handled and shows
  \<open>min (k * ceil (n / 35)) n\<close> followed by all non-digit characters of the original
  text in their order; the last frame shows \<open>n\<close>. For \<open>n = 42\<close> the numbers are
  \<open>2, 4, \<dots>, 42\<close>. When the text is digits followed by non-digit characters, what is
  appended is its non-digit suffix.
\<close>

theorem counter_steps:
  assumes "parseInt_digits (filter is_digit txt) = Some n" and "0 < n"
  shows "counter_frames t txt =
           map (\<lambda>k. (t + 38 * k,
                     show_nat (min (k * js_ceil_div n 35) n) @ filter (\<lambda>c. \<not> is_digit c) txt))
               [1..<Suc (js_ceil_div n (js_ceil_div n 35))]
       \<and> (n = 42 \<longrightarrow>
            counter_frames t txt =
              map (\<lambda>k. (t + 38 * k, show_nat (2 * k) @ filter (\<lambda>c. \<not> is_digit c) txt)) [1..<22])
       \<and> (\<forall>ds suf. txt = ds @ suf \<and> (\<forall>c \<in> set ds. is_digit c) \<and> (\<forall>c \<in> set suf. \<not> is_digit c)
            \<longrightarrow> filter (\<lambda>c. \<not> is_digit c) txt = suf \<and> non_digit_suffix txt = suf)"
proof -
  note closed = counter_frames_closed [OF assms, of t]
  have "n = 42 \<Longrightarrow> counter_frames t txt =
              map (\<lambda>k. (t + 38 * k, show_nat (2 * k) @ filter (\<lambda>c. \<not> is_digit c) txt)) [1..<22]"
  proof -
    assume n: "n = 42"
    have 1: "js_ceil_div 42 35 = 2" and 2: "js_ceil_div 42 2 = 21" by (simp_all add: js_ceil_div_def)
    have "map (\<lambda>k. (t + 38 * k, show_nat (min (k * 2) 42) @ filter (\<lambda>c. \<not> is_digit c) txt)) [1..<22]
        = map (\<lambda>k. (t + 38 * k, show_nat (2 * k) @ filter (\<lambda>c. \<not> is_digit c) txt)) [1..<22]"
      by (rule map_cong [OF refl]) (simp add: min_def mult.commute)
    with closed show ?thesis by (simp only: n 1 2) simp
  qed
  with closed trailing_non_digits show ?thesis by blast
qed

lemma upt_1_22:
  "[Suc 0..<22] = [1, 2, 3, 4, 5, 6, 7, 8, 9, 10, 11, 12, 13, 14, 15, 16, 17, 18, 19, 20, 21]"
  by (simp add: upt_rec)

theorem counter_steps_witness:
  "counter_frames 0 (ascii ''42+'')
   = [(38, ascii ''2+''), (76, ascii ''4+''), (114, ascii ''6+''), (152, ascii ''8+''),
      (190, ascii ''10+''), (228, ascii ''12+''), (266, ascii ''14+''), (304, ascii ''16+''),
      (342, ascii ''18+''), (380, ascii ''20+''), (418, ascii ''22+''), (456, ascii ''24+''),
      (494, ascii ''26+''), (532, ascii ''28+''), (570, ascii ''30+''), (608, ascii ''32+''),
      (646, ascii ''34+''), (684, ascii ''36+''), (722, ascii ''38+''), (760, ascii ''40+''),
      (798, ascii ''42+'')]
   \<and> non_digit_suffix (ascii ''42+'') = ascii ''+''"
proof -
  have p: "parseInt_digits (filter is_digit (ascii ''42+'')) = Some 42"
    by (simp add: ascii_def is_digit_def parseInt_digits_def digit_val_def)
  have 1: "js_ceil_div 42 35 = 2" and 2: "js_ceil_div 42 2 = 21" by (simp_all add: js_ceil_div_def)
  from counter_steps [OF p, of 0] show ?thesis
    by (simp add: 1 2 upt_1_22 show_nat.simps digit_chr_def ascii_def is_digit_def
        non_digit_suffix_def del: upt_Suc)
qed

text \<open>
  The claim as stated fails for a text with a non-digit character before the digits:
  the text \<open>$42\<close> parses to 42 and has an empty non-digit suffix, but the displayed
  texts are \<open>2$\<close>, \<open>4$\<close>, and so on up to \<open>42$\<close>.
\<close>

theorem counter_prefix_counterexample:
  "parseInt_digits (filter is_digit (ascii ''$42'')) = Some 42
   \<and> non_digit_suffix (ascii ''$42'') = []
   \<and> take 2 (counter_frames 0 (ascii ''$42'')) = [(38, ascii ''2$''), (76, ascii ''4$'')]
   \<and> last (counter_frames 0 (ascii ''$42'')) = (798, ascii ''42$'')"
proof -
  have p: "parseInt_digits (filter is_digit (ascii ''$42'')) = Some 42"
    by (simp add: ascii_def is_digit_def parseInt_digits_def digit_val_def)
  have 1: "js_ceil_div 42 35 = 2" and 2: "js_ceil_div 42 2 = 21" by (simp_all add: js_ceil_div_def)
  from counter_frames_closed [OF p, of 0] p show ?thesis
    by (simp add: 1 2 upt_1_22 show_nat.simps digit_chr_def ascii_def is_digit_def
        non_digit_suffix_def del: upt_Suc)
qed

subsection \<open>The email pattern\<close>

lemma nullable_lang: "nullable r \<longleftrightarrow> [] \<in> lang r"
  by (induction r) (auto intro: rx_star_none)

lemma lang_SeqI: "u \<in> lang r \<Longrightarrow> v \<in> lang s \<Longrightarrow> u @ v \<in> lang (Seq r s)"
  by auto

lemma rx_star_cons:
  "c # w \<in> rx_star A \<longleftrightarrow> (\<exists>u v. w = u @ v \<and> c # u \<in> A \<and> v \<in> rx_star A)"
proof
  assume "c # w \<in> rx_star A"
  then show "\<exists>u v. w = u @ v \<and> c # u \<in> A \<and> v \<in> rx_star A"
  proof (induction "c # w" arbitrary: w rule: rx_star.induct)
    case (rx_star_more u v)
    show ?case
    proof (cases u)
      case Nil
      with rx_star_more show ?thesis by simp
    next
      case (Cons a u')
      with rx_star_more have "a = c" "w = u' @ v" by simp_all
      with rx_star_more Cons show ?thesis by blast
    qed
  qed
next
  assume "\<exists>u v. w = u @ v \<and> c # u \<in> A \<and> v \<in> rx_star A"
  then obtain u v where "w = u @ v" "c # u \<in> A" "v \<in> rx_star A" by blast
  then show "c # w \<in> rx_star A" using rx_star.rx_star_more [of "c # u" A v] by simp
qed

lemma deriv_lang: "w \<in> lang (deriv c r) \<longleftrightarrow> c # w \<in> lang r"
proof (induction r arbitrary: w)
  case (Seq r s)
  show ?case
  proof
    assume "w \<in> lang (deriv c (Seq r s))"
    then consider (l) u v where "w = u @ v" "u \<in> lang (deriv c r)" "v \<in> lang s"
      | (r) "nullable r" "w \<in> lang (deriv c s)"
      by (auto split: if_splits)
    then show "c # w \<in> lang (Seq r s)"
    proof cases
      case l
      then have "c # u \<in> lang r" using Seq.IH(1) by simp
      from lang_SeqI [OF this l(3)] l(1) show ?thesis by simp
    next
      case r
      then have "[] \<in> lang r" "c # w \<in> lang s" using Seq.IH(2) nullable_lang by simp_all
      from lang_SeqI [OF this] show ?thesis by simp
    qed
  next
    assume "c # w \<in> lang (Seq r s)"
    then obtain u v where uv: "c # w = u @ v" "u \<in> lang r" "v \<in> lang s" by auto
    show "w \<in> lang (deriv c (Seq r s))"
    proof (cases u)
      case Nil
      with uv have "nullable r" "w \<in> lang (deriv c s)" using Seq.IH(2) nullable_lang by simp_all
      then show ?thesis by simp
    next
      case (Cons a u')
      with uv have "a = c" "w = u' @ v" by simp_all
      with uv Cons have "u' \<in> lang (deriv c r)" using Seq.IH(1) by simp
      from lang_SeqI [OF this uv(3)] \<open>w = u' @ v\<close> show ?thesis by auto
    qed
  qed
next
  case (Star r)
  show ?case
  proof
    assume "w \<in> lang (deriv c (Star r))"
    then obtain u v where "w = u @ v" "u \<in> lang (deriv c r)" "v \<in> rx_star (lang r)" by auto
    then have "\<exists>u v. w = u @ v \<and> c # u \<in> lang r \<and> v \<in> rx_star (lang r)"
      using Star.IH by blast
    then show "c # w \<in> lang (Star r)" by (simp add: rx_star_cons)
  next
    assume "c # w \<in> lang (Star r)"
    then obtain u v where "w = u @ v" "c # u \<in> lang r" "v \<in> rx_star (lang r)"
      using rx_star_cons [of c w "lang r"] by auto
    then show "w \<in> lang (deriv c (Star r))" using Star.IH by auto
  qed
qed auto

lemma rx_test_lang: "rx_test r w \<longleftrightarrow> w \<in> lang r"
  unfolding rx_test_def
  by (induction w arbitrary: r) (simp_all add: nullable_lang deriv_lang)

lemma rx_star_class: "w \<in> rx_star (lang (Class P)) \<longleftrightarrow> (\<forall>c \<in> set w. P c)"
proof
  assume "w \<in> rx_star (lang (Class P))"
  then show "\<forall>c \<in> set w. P c" by (induction rule: rx_star.induct) auto
next
  assume "\<forall>c \<in> set w. P c"
  then show "w \<in> rx_star (lang (Class P))"
  proof (induction w)
    case Nil
    show ?case by (rule rx_star_none)
  next
    case (Cons a w)
    then have "[a] \<in> lang (Class P)" "w \<in> rx_star (lang (Class P))" by simp_all
    from rx_star_more [OF this] show ?case by simp
  qed
qed

lemma lang_Plus_Class: "w \<in> lang (Plus (Class P)) \<longleftrightarrow> w \<noteq> [] \<and> (\<forall>c \<in> set w. P c)"
proof
  assume "w \<in> lang (Plus (Class P))"
  then obtain c v where "w = [c] @ v" "P c" "v \<in> rx_star (lang (Class P))"
    by (auto simp: Plus_def)
  then show "w \<noteq> [] \<and> (\<forall>c \<in> set w. P c)" using rx_star_class [of v P] by simp
next
  assume a: "w \<noteq> [] \<and> (\<forall>c \<in> set w. P c)"
  then obtain c v where w: "w = c # v" by (cases w) auto
  with a have "[c] \<in> lang (Class P)" "v \<in> lang (Star (Class P))"
    using rx_star_class [of v P] by simp_all
  from lang_SeqI [OF this] w show "w \<in> lang (Plus (Class P))" by (simp add: Plus_def)
qed

text \<open>
  What the email pattern accepts: a non-empty local part, \<open>@\<close>, a non-empty part,
  a dot, and a non-empty rest, none of the three parts holding white space or \<open>@\<close>.
\<close>

lemma emailRx_accepts:
  "rx_test emailRx v \<longleftrightarrow>
     (\<exists>a b c. v = a @ [0x40] @ b @ [0x2E] @ c \<and> a \<noteq> [] \<and> b \<noteq> [] \<and> c \<noteq> []
        \<and> (\<forall>x \<in> set a \<union> set b \<union> set c. not_space_at x))"
proof -
  let ?N = "lang (Plus (Class not_space_at))"
  have "v \<in> lang emailRx \<longleftrightarrow>
          (\<exists>a b c. v = a @ [0x40] @ b @ [0x2E] @ c \<and> a \<in> ?N \<and> b \<in> ?N \<and> c \<in> ?N)"
  proof
    assume "v \<in> lang emailRx"
    then obtain a r1 where 1: "v = a @ r1" "a \<in> ?N"
      and "r1 \<in> lang (Seq (Class (\<lambda>c. c = 0x40))
          (Seq (Plus (Class not_space_at))
             (Seq (Class (\<lambda>c. c = 0x2E)) (Plus (Class not_space_at)))))"
      unfolding emailRx_def lang.simps(4) by blast
    then obtain r2 where 2: "r1 = [0x40] @ r2"
      and "r2 \<in> lang (Seq (Plus (Class not_space_at))
             (Seq (Class (\<lambda>c. c = 0x2E)) (Plus (Class not_space_at))))"
      unfolding lang.simps(4) [of "Class (\<lambda>c. c = 0x40)"] by auto
    then obtain b r3 where 3: "r2 = b @ r3" "b \<in> ?N"
      and "r3 \<in> lang (Seq (Class (\<lambda>c. c = 0x2E)) (Plus (Class not_space_at)))"
      unfolding lang.simps(4) [of "Plus (Class not_space_at)"] by blast
    then obtain c where 4: "r3 = [0x2E] @ c" "c \<in> ?N"
      unfolding lang.simps(4) [of "Class (\<lambda>c. c = 0x2E)"] by auto
    from 1 2 3 4 show "\<exists>a b c. v = a @ [0x40] @ b @ [0x2E] @ c \<and> a \<in> ?N \<and> b \<in> ?N \<and> c \<in> ?N"
      by blast
  next
    assume "\<exists>a b c. v = a @ [0x40] @ b @ [0x2E] @ c \<and> a \<in> ?N \<and> b \<in> ?N \<and> c \<in> ?N"
    then obtain a b c where v: "v = a @ [0x40] @ b @ [0x2E] @ c" and abc: "a \<in> ?N" "b \<in> ?N" "c \<in> ?N"
      by blast
    have at: "[0x40] \<in> lang (Class (\<lambda>c. c = 0x40))" and dot: "[0x2E] \<in> lang (Class (\<lambda>c. c = 0x2E))"
      by simp_all
    from lang_SeqI [OF abc(1) lang_SeqI [OF at lang_SeqI [OF abc(2) lang_SeqI [OF dot abc(3)]]]]
    show "v \<in> lang emailRx" unfolding emailRx_def v .
  qed
  then show ?thesis unfolding rx_test_lang lang_Plus_Class by (simp add: ball_Un conj_ac)
qed

subsection \<open>Contact form: validation\<close>

lemma emailRx_accepts_foo_bar_com: "rx_test emailRx (ascii ''foo@bar.com'')"
  by (simp add: rx_test_def emailRx_def Plus_def ascii_def not_space_at_def is_space_def)

lemma emailRx_rejects_foo_bar: "\<not> rx_test emailRx (ascii ''foo@bar'')"
  by (simp add: rx_test_def emailRx_def Plus_def ascii_def not_space_at_def is_space_def)

lemma emailRx_rejects_trailing_space: "\<not> rx_test emailRx (ascii ''foo@bar.com '')"
  by (simp add: rx_test_def emailRx_def Plus_def ascii_def not_space_at_def is_space_def)

lemma emailRx_accepts_inner_dots: "rx_test emailRx (ascii ''a.b@c.d.e'')"
  by (simp add: rx_test_def emailRx_def Plus_def ascii_def not_space_at_def is_space_def)

lemma map_mark_missing_id: "\<forall>f \<in> set fs. \<not> missing f \<Longrightarrow> map mark_missing fs = fs"
  by (induction fs) (simp_all add: mark_missing_def)

lemma submit_missing:
  "\<exists>f \<in> set (controls s). missing f \<Longrightarrow>
   submit_handler s = Inr (s\<lparr>controls := map mark_missing (controls s)\<rparr>)"
  by (auto simp: submit_handler_def Let_def list_all_iff)

lemma submit_bad_email:
  assumes "\<forall>f \<in> set (controls s). \<not> missing f"
    and "first_index (\<lambda>f. f_id f = ascii ''email'') (controls s) = Some i"
    and "\<not> rx_test emailRx (f_value (controls s ! i))"
  shows "submit_handler s
         = Inr (s\<lparr>controls := (controls s)[i := (controls s ! i)\<lparr>f_border := invalid_border\<rparr>],
                  focused := Some i\<rparr>)"
  using assms by (simp add: submit_handler_def Let_def list_all_iff map_mark_missing_id)

lemma submit_valid:
  assumes "\<forall>f \<in> set (controls s). \<not> missing f"
    and "case first_index (\<lambda>f. f_id f = ascii ''email'') (controls s) of
           None \<Rightarrow> True | Some i \<Rightarrow> rx_test emailRx (f_value (controls s ! i))"
  shows "submit_handler s = start_send s"
  using assms
  by (simp add: submit_handler_def Let_def list_all_iff map_mark_missing_id split: option.splits)

lemma start_send_started: "submitBtn s = Some b \<Longrightarrow> send_started s (start_send s)"
  by (simp add: start_send_def send_started_def setTimeout_def Let_def)

text \<open>
  Claim C4. On a page with the submit button and an element with id \<open>email\<close>, a
  submit starts the simulated send (button disabled, 1800 ms timer set) if and only
  if every required field of the form has a non-empty trimmed value and the value of
  the email field matches the pattern. When a required field is empty, every such
  field gets the invalid border and nothing else changes; when no required field is
  empty and the email value does not match, the email field gets the invalid border
  and the focus and nothing else changes.
\<close>

theorem submit_starts_send_iff_valid:
  assumes "submitBtn s = Some b"
    and "first_index (\<lambda>f. f_id f = ascii ''email'') (controls s) = Some i"
  shows "(send_started s (submit_handler s)
          \<longleftrightarrow> (\<forall>f \<in> set (controls s). f_required f \<and> f_in_form f \<longrightarrow> js_trim (f_value f) \<noteq> [])
              \<and> rx_test emailRx (f_value (controls s ! i)))
       \<and> ((\<exists>f \<in> set (controls s). f_required f \<and> f_in_form f \<and> js_trim (f_value f) = [])
            \<longrightarrow> submit_handler s = Inr (s\<lparr>controls := map mark_missing (controls s)\<rparr>)
              \<and> (\<forall>f \<in> set (controls s). f_required f \<and> f_in_form f \<and> js_trim (f_value f) = []
                    \<longrightarrow> f_border (mark_missing f) = invalid_border))
       \<and> ((\<forall>f \<in> set (controls s). f_required f \<and> f_in_form f \<longrightarrow> js_trim (f_value f) \<noteq> [])
            \<and> \<not> rx_test emailRx (f_value (controls s ! i))
            \<longrightarrow> submit_handler s
                = Inr (s\<lparr>controls := (controls s)[i := (controls s ! i)\<lparr>f_border := invalid_border\<rparr>],
                         focused := Some i\<rparr>))"
proof (cases "\<exists>f \<in> set (controls s). missing f")
  case True
  from submit_missing [OF True] True show ?thesis
    by (auto simp: send_started_def missing_def mark_missing_def)
next
  case False
  then have ok: "\<forall>f \<in> set (controls s). \<not> missing f" by simp
  show ?thesis
  proof (cases "rx_test emailRx (f_value (controls s ! i))")
    case True
    with ok assms(2) have "submit_handler s = start_send s" by (simp add: submit_valid)
    with start_send_started [OF assms(1)] ok True show ?thesis
      by (auto simp: missing_def)
  next
    case False
    from submit_bad_email [OF ok assms(2) False] ok False show ?thesis
      by (auto simp: send_started_def missing_def)
  qed
qed

theorem submit_starts_send_iff_valid_witness:
  "send_started (contact_form ''Ann'' ''foo@bar.com'' ''Send Message'')
     (submit_handler (contact_form ''Ann'' ''foo@bar.com'' ''Send Message''))
   \<and> submit_handler (contact_form ''Ann'' ''foo@bar'' ''Send Message'')
     = Inr ((contact_form ''Ann'' ''foo@bar'' ''Send Message'')
             \<lparr>controls := [text_field ''name'' ''Ann'',
                            (text_field ''email'' ''foo@bar'')\<lparr>f_border := invalid_border\<rparr>,
                            text_field ''message'' ''Hello''],
               focused := Some 1\<rparr>)
   \<and> \<not> send_started (contact_form ''  '' ''foo@bar.com'' ''Send Message'')
         (submit_handler (contact_form ''  '' ''foo@bar.com'' ''Send Message''))"
proof -
  have i: "first_index (\<lambda>f. f_id f = ascii ''email'') (controls (contact_form n e l)) = Some 1" for n e l
    by (simp add: contact_form_def text_field_def ascii_def)
  have b: "submitBtn (contact_form n e l) = Some (send_button l)" for n e l
    by (simp add: contact_form_def)
  have t: "js_trim (ascii ''Ann'') \<noteq> []" "js_trim (ascii ''Hello'') \<noteq> []" "js_trim (ascii ''  '') = []"
     "js_trim (ascii ''foo@bar'') \<noteq> []" "js_trim (ascii ''foo@bar.com'') \<noteq> []"
    by (simp_all add: js_trim_def ascii_def is_space_def)
  have c: "controls (contact_form n e l)
           = [text_field ''name'' n, text_field ''email'' e, text_field ''message'' ''Hello'']" for n e l
    by (simp add: contact_form_def)
  have 1: "send_started (contact_form ''Ann'' ''foo@bar.com'' ''Send Message'')
     (submit_handler (contact_form ''Ann'' ''foo@bar.com'' ''Send Message''))"
    using submit_starts_send_iff_valid [OF b i, of "''Ann''" "''foo@bar.com''" "''Send Message''"]
    by (simp add: c text_field_def t emailRx_accepts_foo_bar_com)
  have 2: "submit_handler (contact_form ''Ann'' ''foo@bar'' ''Send Message'')
     = Inr ((contact_form ''Ann'' ''foo@bar'' ''Send Message'')
             \<lparr>controls := [text_field ''name'' ''Ann'',
                            (text_field ''email'' ''foo@bar'')\<lparr>f_border := invalid_border\<rparr>,
                            text_field ''message'' ''Hello''],
               focused := Some 1\<rparr>)"
    using submit_starts_send_iff_valid [OF b i, of "''Ann''" "''foo@bar''" "''Send Message''"]
    by (simp add: c text_field_def t emailRx_rejects_foo_bar)
  have 3: "\<not> send_started (contact_form ''  '' ''foo@bar.com'' ''Send Message'')
         (submit_handler (contact_form ''  '' ''foo@bar.com'' ''Send Message''))"
    using submit_starts_send_iff_valid [OF b i, of "''  ''" "''foo@bar.com''" "''Send Message''",
        THEN conjunct1]
    by (simp add: c text_field_def t emailRx_accepts_foo_bar_com)
  from 1 2 3 show ?thesis by blast
qed

subsection \<open>Contact form: simulated send\<close>

lemma next_due_single:
  "next_due t [(i, due, cb)] = (if due \<le> t then Some (i, due, cb) else None)"
  by (simp add: next_due_def due_by_def)

lemma cf_run_due_idle: "queue (cf_timers s) = [] \<Longrightarrow> cf_run_due t s = s"
  by (subst cf_run_due.simps) (simp add: next_due_def)

lemma cf_run_due_single:
  "queue (cf_timers s) = [(i, due, cb)] \<Longrightarrow>
   cf_run_due t s = (if due \<le> t then cf_run_due t (cf_fire_timer (i, due, cb) s) else s)"
  by (subst cf_run_due.simps) (simp add: next_due_single)

lemma cf_fire_timer_hide:
  "queue (cf_timers s) = [(i, due, HideSuccess)] \<Longrightarrow>
   cf_fire_timer (i, due, HideSuccess) s
   = s\<lparr>cf_timers := (cf_timers s)\<lparr>now := max (now (cf_timers s)) due, queue := []\<rparr>,
       formSuccess := map_option (cl_remove (ascii ''show'')) (formSuccess s)\<rparr>"
  by (simp add: cf_fire_timer_def drop_timer_def)

lemma cf_fire_timer_finish:
  "queue (cf_timers s) = [(i, due, FinishSend)] \<Longrightarrow>
   cf_fire_timer (i, due, FinishSend) s
   = s\<lparr>controls := map form_reset (controls s),
       submitBtn := map_option
          (\<lambda>b. b\<lparr>disabled := False,
                 span_text := map_option (\<lambda>_. ascii ''Send Message'') (span_text b),
                 icon_class := map_option (\<lambda>_. ascii ''fas fa-paper-plane'') (icon_class b)\<rparr>)
          (submitBtn s),
       formSuccess := map_option (cl_add (ascii ''show'')) (formSuccess s),
       cf_timers := (cf_timers s)\<lparr>now := max (now (cf_timers s)) due,
                       next_id := Suc (next_id (cf_timers s)),
                       queue := [(next_id (cf_timers s), max (now (cf_timers s)) due + 5000,
                                  HideSuccess)]\<rparr>\<rparr>"
  by (simp add: cf_fire_timer_def drop_timer_def setTimeout_def Let_def)

text \<open>The three phases after the send has started with nothing else pending.\<close>

lemma sending_timeline:
  assumes q: "queue (cf_timers s1) = [(i, now (cf_timers s1) + 1800, FinishSend)]"
  shows "t < now (cf_timers s1) + 1800 \<Longrightarrow> cf_run_due t s1 = s1"
    and "now (cf_timers s1) + 1800 \<le> t \<Longrightarrow> t < now (cf_timers s1) + 6800 \<Longrightarrow>
         cf_run_due t s1 = cf_fire_timer (i, now (cf_timers s1) + 1800, FinishSend) s1"
    and "now (cf_timers s1) + 6800 \<le> t \<Longrightarrow>
         cf_run_due t s1 =
           cf_fire_timer (next_id (cf_timers s1), now (cf_timers s1) + 6800, HideSuccess)
             (cf_fire_timer (i, now (cf_timers s1) + 1800, FinishSend) s1)"
proof -
  let ?s2 = "cf_fire_timer (i, now (cf_timers s1) + 1800, FinishSend) s1"
  have q2: "queue (cf_timers ?s2) = [(next_id (cf_timers s1), now (cf_timers s1) + 6800, HideSuccess)]"
    by (simp add: cf_fire_timer_finish [OF q])
  let ?s3 = "cf_fire_timer (next_id (cf_timers s1), now (cf_timers s1) + 6800, HideSuccess) ?s2"
  have q3: "queue (cf_timers ?s3) = []"
    by (simp add: cf_fire_timer_hide [OF q2])
  show "t < now (cf_timers s1) + 1800 \<Longrightarrow> cf_run_due t s1 = s1"
    by (simp add: cf_run_due_single [OF q])
  show "now (cf_timers s1) + 1800 \<le> t \<Longrightarrow> t < now (cf_timers s1) + 6800 \<Longrightarrow>
         cf_run_due t s1 = ?s2"
    by (simp add: cf_run_due_single [OF q] cf_run_due_single [OF q2])
  show "now (cf_timers s1) + 6800 \<le> t \<Longrightarrow> cf_run_due t s1 = ?s3"
    by (simp add: cf_run_due_single [OF q] cf_run_due_single [OF q2] cf_run_due_idle [OF q3])
qed

lemma start_send_state:
  assumes "submitBtn s = Some b" and "queue (cf_timers s) = []"
  shows "\<exists>s1. start_send s = Inr s1
           \<and> submitBtn s1 = Some (b\<lparr>disabled := True,
                  span_text := map_option (\<lambda>_. sending_label) (span_text b),
                  icon_class := map_option (\<lambda>_. ascii ''fas fa-spinner fa-spin'') (icon_class b)\<rparr>)
           \<and> controls s1 = controls s \<and> formSuccess s1 = formSuccess s
           \<and> now (cf_timers s1) = now (cf_timers s)
           \<and> queue (cf_timers s1) = [(next_id (cf_timers s), now (cf_timers s1) + 1800, FinishSend)]"
  using assms by (simp add: start_send_def setTimeout_def Let_def)

lemma after_send_state:
  assumes q: "queue (cf_timers s1) = [(i, now (cf_timers s1) + 1800, FinishSend)]"
    and b: "submitBtn s1 = Some b1" and c: "formSuccess s1 = Some cls"
  shows "t < now (cf_timers s1) + 1800 \<Longrightarrow>
           submitBtn (cf_advance t s1) = Some b1 \<and> controls (cf_advance t s1) = controls s1
           \<and> formSuccess (cf_advance t s1) = Some cls"
    and "now (cf_timers s1) + 1800 \<le> t \<Longrightarrow>
           controls (cf_advance t s1) = map form_reset (controls s1)
           \<and> submitBtn (cf_advance t s1)
               = Some (b1\<lparr>disabled := False,
                    span_text := map_option (\<lambda>_. ascii ''Send Message'') (span_text b1),
                    icon_class := map_option (\<lambda>_. ascii ''fas fa-paper-plane'') (icon_class b1)\<rparr>)"
    and "now (cf_timers s1) + 1800 \<le> t \<Longrightarrow> t < now (cf_timers s1) + 6800 \<Longrightarrow>
           formSuccess (cf_advance t s1) = Some (cl_add (ascii ''show'') cls)"
    and "now (cf_timers s1) + 6800 \<le> t \<Longrightarrow>
           formSuccess (cf_advance t s1) = Some (cl_remove (ascii ''show'') (cl_add (ascii ''show'') cls))"
proof -
  note tl = sending_timeline [OF q]
  let ?s2 = "cf_fire_timer (i, now (cf_timers s1) + 1800, FinishSend) s1"
  let ?s3 = "cf_fire_timer (next_id (cf_timers s1), now (cf_timers s1) + 6800, HideSuccess) ?s2"
  let ?b2 = "b1\<lparr>disabled := False,
                    span_text := map_option (\<lambda>_. ascii ''Send Message'') (span_text b1),
                    icon_class := map_option (\<lambda>_. ascii ''fas fa-paper-plane'') (icon_class b1)\<rparr>"
  have q2: "queue (cf_timers ?s2) = [(next_id (cf_timers s1), now (cf_timers s1) + 6800, HideSuccess)]"
    by (simp add: cf_fire_timer_finish [OF q])
  have s2: "controls ?s2 = map form_reset (controls s1)" "submitBtn ?s2 = Some ?b2"
    "formSuccess ?s2 = Some (cl_add (ascii ''show'') cls)"
    using b c by (simp_all add: cf_fire_timer_finish [OF q])
  have s3: "controls ?s3 = controls ?s2" "submitBtn ?s3 = submitBtn ?s2"
    "formSuccess ?s3 = map_option (cl_remove (ascii ''show'')) (formSuccess ?s2)"
    by (simp_all add: cf_fire_timer_hide [OF q2])
  show "t < now (cf_timers s1) + 1800 \<Longrightarrow>
           submitBtn (cf_advance t s1) = Some b1 \<and> controls (cf_advance t s1) = controls s1
           \<and> formSuccess (cf_advance t s1) = Some cls"
    using b c by (simp add: cf_advance_def tl(1) Let_def)
  show "now (cf_timers s1) + 1800 \<le> t \<Longrightarrow> t < now (cf_timers s1) + 6800 \<Longrightarrow>
           formSuccess (cf_advance t s1) = Some (cl_add (ascii ''show'') cls)"
    by (simp add: cf_advance_def tl(2) s2 Let_def)
  show "now (cf_timers s1) + 6800 \<le> t \<Longrightarrow>
           formSuccess (cf_advance t s1) = Some (cl_remove (ascii ''show'') (cl_add (ascii ''show'') cls))"
    by (simp add: cf_advance_def tl(3) s3 s2 Let_def)
  show "now (cf_timers s1) + 1800 \<le> t \<Longrightarrow>
           controls (cf_advance t s1) = map form_reset (controls s1)
           \<and> submitBtn (cf_advance t s1) = Some ?b2"
  proof (cases "t < now (cf_timers s1) + 6800")
    case True
    assume "now (cf_timers s1) + 1800 \<le> t"
    with True show ?thesis
      by (simp add: cf_advance_def tl(2) s2 Let_def)
  next
    case False
    then show ?thesis
      by (simp add: cf_advance_def tl(3) s3 s2 Let_def)
  qed
qed

text \<open>
  Claim C5, amended. For a fully valid submission on a page with the button and the
  success indicator, with no timer of an earlier submission pending: the button is
  disabled at once, its label reads \<open>Sending\<dots>\<close> and its icon is the spinner; until
  1800 ms have passed nothing else changes; from 1800 ms on the form is reset and
  the button is enabled with the label \<open>Send Message\<close> and the paper-plane icon,
  whatever the label was before; the success indicator carries \<open>show\<close> from 1800 ms
  until 5000 ms later, and not from then on.
\<close>

theorem valid_submit_timeline:
  assumes "\<forall>f \<in> set (controls s). f_required f \<and> f_in_form f \<longrightarrow> js_trim (f_value f) \<noteq> []"
    and "case first_index (\<lambda>f. f_id f = ascii ''email'') (controls s) of
           None \<Rightarrow> True | Some i \<Rightarrow> rx_test emailRx (f_value (controls s ! i))"
    and "submitBtn s = Some b"
    and "formSuccess s = Some cls"
    and "queue (cf_timers s) = []"
  shows "\<exists>s1. submit_handler s = Inr s1
     \<and> submitBtn s1 = Some (b\<lparr>disabled := True,
            span_text := map_option (\<lambda>_. sending_label) (span_text b),
            icon_class := map_option (\<lambda>_. ascii ''fas fa-spinner fa-spin'') (icon_class b)\<rparr>)
     \<and> (\<forall>t. t < now (cf_timers s) + 1800 \<longrightarrow>
           submitBtn (cf_advance t s1) = submitBtn s1 \<and> controls (cf_advance t s1) = controls s
           \<and> formSuccess (cf_advance t s1) = Some cls)
     \<and> (\<forall>t. now (cf_timers s) + 1800 \<le> t \<longrightarrow>
           controls (cf_advance t s1) = map form_reset (controls s)
           \<and> submitBtn (cf_advance t s1)
               = Some (b\<lparr>disabled := False,
                    span_text := map_option (\<lambda>_. ascii ''Send Message'') (span_text b),
                    icon_class := map_option (\<lambda>_. ascii ''fas fa-paper-plane'') (icon_class b)\<rparr>))
     \<and> (\<forall>t. now (cf_timers s) + 1800 \<le> t \<and> t < now (cf_timers s) + 6800 \<longrightarrow>
           formSuccess (cf_advance t s1) = Some (cl_add (ascii ''show'') cls)
           \<and> cl_contains (ascii ''show'') (cl_add (ascii ''show'') cls))
     \<and> (\<forall>t. now (cf_timers s) + 6800 \<le> t \<longrightarrow>
           formSuccess (cf_advance t s1)
             = Some (cl_remove (ascii ''show'') (cl_add (ascii ''show'') cls))
           \<and> \<not> cl_contains (ascii ''show'') (cl_remove (ascii ''show'') (cl_add (ascii ''show'') cls)))"
proof -
  from assms(1) have ok: "\<forall>f \<in> set (controls s). \<not> missing f" by (auto simp: missing_def)
  from submit_valid [OF ok assms(2)] have sub: "submit_handler s = start_send s" .
  from start_send_state [OF assms(3) assms(5)] obtain s1 where
    s1: "start_send s = Inr s1"
    and b1: "submitBtn s1 = Some (b\<lparr>disabled := True,
                  span_text := map_option (\<lambda>_. sending_label) (span_text b),
                  icon_class := map_option (\<lambda>_. ascii ''fas fa-spinner fa-spin'') (icon_class b)\<rparr>)"
    and c1: "controls s1 = controls s" and f1: "formSuccess s1 = formSuccess s"
    and n1: "now (cf_timers s1) = now (cf_timers s)"
    and q1: "queue (cf_timers s1) = [(next_id (cf_timers s), now (cf_timers s1) + 1800, FinishSend)]"
    by blast
  from f1 assms(4) have f1': "formSuccess s1 = Some cls" by simp
  note ph = after_send_state [OF q1 b1 f1', unfolded n1 c1]
  have "submit_handler s = Inr s1" using sub s1 by simp
  moreover have "\<forall>t. t < now (cf_timers s) + 1800 \<longrightarrow>
           submitBtn (cf_advance t s1) = submitBtn s1 \<and> controls (cf_advance t s1) = controls s
           \<and> formSuccess (cf_advance t s1) = Some cls"
    using ph(1) b1 by simp
  moreover have "\<forall>t. now (cf_timers s) + 1800 \<le> t \<longrightarrow>
           controls (cf_advance t s1) = map form_reset (controls s)
           \<and> submitBtn (cf_advance t s1)
               = Some (b\<lparr>disabled := False,
                    span_text := map_option (\<lambda>_. ascii ''Send Message'') (span_text b),
                    icon_class := map_option (\<lambda>_. ascii ''fas fa-paper-plane'') (icon_class b)\<rparr>)"
    using ph(2) by (simp add: option.map_comp comp_def)
  moreover have "\<forall>t. now (cf_timers s) + 1800 \<le> t \<and> t < now (cf_timers s) + 6800 \<longrightarrow>
           formSuccess (cf_advance t s1) = Some (cl_add (ascii ''show'') cls)
           \<and> cl_contains (ascii ''show'') (cl_add (ascii ''show'') cls)"
    using ph(3) by (simp add: cl_contains_def cl_add_def)
  moreover have "\<forall>t. now (cf_timers s) + 6800 \<le> t \<longrightarrow>
           formSuccess (cf_advance t s1)
             = Some (cl_remove (ascii ''show'') (cl_add (ascii ''show'') cls))
           \<and> \<not> cl_contains (ascii ''show'') (cl_remove (ascii ''show'') (cl_add (ascii ''show'') cls))"
    using ph(4) by (simp add: cl_contains_def cl_remove_def)
  ultimately show ?thesis using b1 by blast
qed

lemma contact_form_valid:
  assumes "js_trim (ascii n) \<noteq> []" and "js_trim (ascii e) \<noteq> []" and "rx_test emailRx (ascii e)"
  shows "\<forall>f \<in> set (controls (contact_form n e l)).
            f_required f \<and> f_in_form f \<longrightarrow> js_trim (f_value f) \<noteq> []"
    and "case first_index (\<lambda>f. f_id f = ascii ''email'') (controls (contact_form n e l)) of
           None \<Rightarrow> True | Some i \<Rightarrow> rx_test emailRx (f_value (controls (contact_form n e l) ! i))"
    and "submitBtn (contact_form n e l) = Some (send_button l)"
    and "formSuccess (contact_form n e l) = Some [ascii ''form-success'']"
    and "queue (cf_timers (contact_form n e l)) = []"
    and "now (cf_timers (contact_form n e l)) = 0"
proof -
  have "js_trim (ascii ''Hello'') \<noteq> []" by (simp add: js_trim_def ascii_def is_space_def)
  with assms show "\<forall>f \<in> set (controls (contact_form n e l)).
            f_required f \<and> f_in_form f \<longrightarrow> js_trim (f_value f) \<noteq> []"
    by (simp add: contact_form_def text_field_def)
  have "first_index (\<lambda>f. f_id f = ascii ''email'') (controls (contact_form n e l)) = Some 1"
    by (simp add: contact_form_def text_field_def ascii_def)
  with assms(3) show "case first_index (\<lambda>f. f_id f = ascii ''email'') (controls (contact_form n e l)) of
           None \<Rightarrow> True | Some i \<Rightarrow> rx_test emailRx (f_value (controls (contact_form n e l) ! i))"
    by (simp add: contact_form_def text_field_def)
qed (simp_all add: contact_form_def no_timers_def)

lemma trim_Ann: "js_trim (ascii ''Ann'') \<noteq> []"
  by (simp add: js_trim_def ascii_def is_space_def)

lemma trim_foo: "js_trim (ascii ''foo@bar.com'') \<noteq> []"
  by (simp add: js_trim_def ascii_def is_space_def)

theorem valid_submit_timeline_witness:
  "Option.bind (submit_then_wait 0 (contact_form ''Ann'' ''foo@bar.com'' ''Send Message'')) button_label
     = Some sending_label
   \<and> Option.bind (submit_then_wait 1799 (contact_form ''Ann'' ''foo@bar.com'' ''Send Message'')) button_label
     = Some sending_label
   \<and> Option.bind (submit_then_wait 1800 (contact_form ''Ann'' ''foo@bar.com'' ''Send Message'')) button_label
     = Some (ascii ''Send Message'')
   \<and> Option.bind (submit_then_wait 1800 (contact_form ''Ann'' ''foo@bar.com'' ''Send Message'')) formSuccess
     = Some [ascii ''form-success'', ascii ''show'']
   \<and> Option.bind (submit_then_wait 6799 (contact_form ''Ann'' ''foo@bar.com'' ''Send Message'')) formSuccess
     = Some [ascii ''form-success'', ascii ''show'']
   \<and> Option.bind (submit_then_wait 6800 (contact_form ''Ann'' ''foo@bar.com'' ''Send Message'')) formSuccess
     = Some [ascii ''form-success'']"
proof -
  let ?F = "contact_form ''Ann'' ''foo@bar.com'' ''Send Message''"
  note v = contact_form_valid [OF trim_Ann trim_foo emailRx_accepts_foo_bar_com, of "''Send Message''"]
  from valid_submit_timeline [OF v(1) v(2) v(3) v(4) v(5)] obtain s1 where
    sub: "submit_handler ?F = Inr s1"
    and b1: "submitBtn s1 = Some ((send_button ''Send Message'')\<lparr>disabled := True,
            span_text := map_option (\<lambda>_. sending_label) (span_text (send_button ''Send Message'')),
            icon_class := map_option (\<lambda>_. ascii ''fas fa-spinner fa-spin'')
                            (icon_class (send_button ''Send Message''))\<rparr>)"
    and p1: "\<forall>t. t < now (cf_timers ?F) + 1800 \<longrightarrow>
           submitBtn (cf_advance t s1) = submitBtn s1 \<and> controls (cf_advance t s1) = controls ?F
           \<and> formSuccess (cf_advance t s1) = Some [ascii ''form-success'']"
    and p2: "\<forall>t. now (cf_timers ?F) + 1800 \<le> t \<longrightarrow>
           controls (cf_advance t s1) = map form_reset (controls ?F)
           \<and> submitBtn (cf_advance t s1)
               = Some ((send_button ''Send Message'')\<lparr>disabled := False,
                    span_text := map_option (\<lambda>_. ascii ''Send Message'')
                                   (span_text (send_button ''Send Message'')),
                    icon_class := map_option (\<lambda>_. ascii ''fas fa-paper-plane'')
                                   (icon_class (send_button ''Send Message''))\<rparr>)"
    and p3: "\<forall>t. now (cf_timers ?F) + 1800 \<le> t \<and> t < now (cf_timers ?F) + 6800 \<longrightarrow>
           formSuccess (cf_advance t s1) = Some (cl_add (ascii ''show'') [ascii ''form-success''])
           \<and> cl_contains (ascii ''show'') (cl_add (ascii ''show'') [ascii ''form-success''])"
    and p4: "\<forall>t. now (cf_timers ?F) + 6800 \<le> t \<longrightarrow>
           formSuccess (cf_advance t s1)
             = Some (cl_remove (ascii ''show'') (cl_add (ascii ''show'') [ascii ''form-success'']))
           \<and> \<not> cl_contains (ascii ''show'')
                 (cl_remove (ascii ''show'') (cl_add (ascii ''show'') [ascii ''form-success'']))"
    by blast
  have w: "submit_then_wait t ?F = Some (cf_advance t s1)" for t
    by (simp add: submit_then_wait_def sub v(6))
  have cls: "cl_add (ascii ''show'') [ascii ''form-success''] = [ascii ''form-success'', ascii ''show'']"
    "cl_remove (ascii ''show'') [ascii ''form-success'', ascii ''show''] = [ascii ''form-success'']"
    by (simp_all add: cl_add_def cl_remove_def ascii_def)
  from p1 [rule_format, of 0] p1 [rule_format, of 1799] p2 [rule_format, of 1800]
    p3 [rule_format, of 1800] p3 [rule_format, of 6799] p4 [rule_format, of 6800] b1
  show ?thesis
    by (simp add: w v(6) button_label_def send_button_def cls)
qed

text \<open>
  The claim as stated fails for a button whose label is not \<open>Send Message\<close>: the
  handler does not keep the original label, it writes a fixed one.
\<close>

theorem original_label_counterexample:
  "button_label (contact_form ''Ann'' ''foo@bar.com'' ''Submit'') = Some (ascii ''Submit'')
   \<and> Option.bind (submit_then_wait 1800 (contact_form ''Ann'' ''foo@bar.com'' ''Submit'')) button_label
       = Some (ascii ''Send Message'')"
proof -
  let ?F = "contact_form ''Ann'' ''foo@bar.com'' ''Submit''"
  note v = contact_form_valid [OF trim_Ann trim_foo emailRx_accepts_foo_bar_com, of "''Submit''"]
  from v(1) have ok: "\<forall>f \<in> set (controls ?F). \<not> missing f" by (auto simp: missing_def)
  from start_send_state [OF v(3) v(5)] obtain s1 where
    s1: "start_send ?F = Inr s1"
    and b1: "submitBtn s1 = Some ((send_button ''Submit'')\<lparr>disabled := True,
                  span_text := map_option (\<lambda>_. sending_label) (span_text (send_button ''Submit'')),
                  icon_class := map_option (\<lambda>_. ascii ''fas fa-spinner fa-spin'')
                                  (icon_class (send_button ''Submit''))\<rparr>)"
    and f1: "formSuccess s1 = formSuccess ?F"
    and n1: "now (cf_timers s1) = now (cf_timers ?F)"
    and q1: "queue (cf_timers s1) = [(next_id (cf_timers ?F), now (cf_timers s1) + 1800, FinishSend)]"
    by blast
  have w: "submit_then_wait 1800 ?F = Some (cf_advance 1800 s1)"
    by (simp add: submit_then_wait_def submit_valid [OF ok v(2)] s1 v(6))
  from f1 v(4) have f1': "formSuccess s1 = Some [ascii ''form-success'']" by simp
  from after_send_state(2) [OF q1 b1 f1', of 1800] n1 v(6)
  have "button_label (cf_advance 1800 s1) = Some (ascii ''Send Message'')"
    by (simp add: button_label_def send_button_def)
  with w show ?thesis
    by (simp add: button_label_def contact_form_def send_button_def)
qed

subsection \<open>Typing effect\<close>

lemma typing_frames_numeral:
  "typing_frames ws (numeral k) c =
     (case typing_fire ws c of
        None \<Rightarrow> []
      | Some c' \<Rightarrow> (fst c', hero_text (fst (snd c'))) # typing_frames ws (pred_numeral k) c')"
  by (simp add: numeral_eq_Suc)

lemma typing_after_numeral:
  "typing_after ws (numeral k) c =
     (case typing_fire ws c of None \<Rightarrow> None | Some c' \<Rightarrow> typing_after ws (pred_numeral k) c')"
  by (simp add: numeral_eq_Suc)

lemma upt_0_26:
  "[0..<26] = [0, 1, 2, 3, 4, 5, 6, 7, 8, 9, 10, 11, 12, 13, 14, 15, 16, 17, 18, 19, 20, 21, 22,
               23, 24, 25]"
  by (simp add: upt_rec)

lemma ai_cycle_frames:
  "typing_frames ai_words 26 (t, typing_start, TickIn d)
   = map (\<lambda>r. (t + d + ai_offset r, ai_text r)) [0..<26]"
  unfolding upt_0_26
  by (simp add: typing_frames_numeral ai_words_def typing_start_def tick_def js_slice0_def
      ascii_def ai_offset_def ai_text_def Let_def)

lemma ai_cycle_after:
  "typing_after ai_words 26 (t, typing_start, TickIn d)
   = Some (t + d + 3800, typing_start, TickIn 95)"
  by (simp add: typing_after_numeral ai_words_def typing_start_def tick_def js_slice0_def
      ascii_def Let_def)

lemma typing_after_add:
  "typing_after ws (m + n) c =
     (case typing_after ws m c of None \<Rightarrow> None | Some c' \<Rightarrow> typing_after ws n c')"
  by (induction m arbitrary: c) (simp_all split: option.splits)

lemma typing_frames_length:
  "typing_after ws n c = Some c' \<Longrightarrow> length (typing_frames ws n c) = n"
  by (induction n arbitrary: c) (auto split: option.splits)

lemma typing_frames_nth:
  "k < n \<Longrightarrow> typing_after ws (Suc k) c = Some c' \<Longrightarrow>
   typing_frames ws n c ! k = (fst c', hero_text (fst (snd c')))"
proof (induction k arbitrary: n c)
  case 0
  then obtain n' where "n = Suc n'" by (cases n) auto
  with 0 show ?case by (auto split: option.splits)
next
  case (Suc k)
  then obtain n' where n: "n = Suc n'" by (cases n) auto
  from Suc.prems(2) obtain c1 where c1: "typing_fire ws c = Some c1"
    and rest: "typing_after ws (Suc k) c1 = Some c'"
    by (auto split: option.splits)
  from Suc.prems(1) n have "k < n'" by simp
  from Suc.IH [OF this rest] c1 n show ?case by simp
qed

text \<open>The state at the start of cycle \<open>q\<close>: the clock and the delay of the pending tick.\<close>

lemma ai_cycles_after:
  "typing_after ai_words (26 * q) (t, typing_start, TickIn d)
   = Some (if q = 0 then (t, typing_start, TickIn d)
           else (t + d + 3895 * q - 95, typing_start, TickIn 95))"
proof (induction q)
  case 0
  then show ?case by simp
next
  case (Suc q)
  have "26 * Suc q = 26 * q + 26" by simp
  then show ?case
    by (simp only: typing_after_add Suc.IH) (simp add: ai_cycle_after)
qed

lemma ai_frame:
  assumes "r < 26"
  shows "\<exists>c'. typing_after ai_words (26 * q + Suc r) initTypingEffect = Some c'
            \<and> fst c' = 1200 + 3895 * q + ai_offset r \<and> hero_text (fst (snd c')) = ai_text r"
proof -
  obtain t d where base: "typing_after ai_words (26 * q) initTypingEffect = Some (t, typing_start, TickIn d)"
    and td: "t + d = 1200 + 3895 * q"
    by (cases "q = 0") (simp_all add: initTypingEffect_def ai_cycles_after)
  from assms obtain m where m: "26 = Suc r + m" by (metis less_iff_Suc_add add_Suc)
  have "typing_after ai_words (Suc r + m) (t, typing_start, TickIn d)
        = Some (t + d + 3800, typing_start, TickIn 95)"
    by (simp only: m [symmetric] ai_cycle_after)
  then have "typing_after ai_words (Suc r + m) (t, typing_start, TickIn d) \<noteq> None"
    by (simp only:) simp
  then obtain c' where c': "typing_after ai_words (Suc r) (t, typing_start, TickIn d) = Some c'"
    by (auto simp only: typing_after_add split: option.splits)
  from typing_frames_nth [OF assms c'] assms
  have "(fst c', hero_text (fst (snd c'))) = (t + d + ai_offset r, ai_text r)"
    by (simp add: ai_cycle_frames)
  with td have "fst c' = 1200 + 3895 * q + ai_offset r \<and> hero_text (fst (snd c')) = ai_text r"
    by simp
  moreover have "typing_after ai_words (26 * q + Suc r) initTypingEffect = Some c'"
    by (simp only: typing_after_add base option.case c')
  ultimately show ?thesis by blast
qed

lemma ai_frames_all:
  "length (typing_frames ai_words n initTypingEffect) = n"
  "k < n \<Longrightarrow> typing_frames ai_words n initTypingEffect ! k
     = (1200 + 3895 * (k div 26) + ai_offset (k mod 26), ai_text (k mod 26))"
proof -
  have r: "n mod 26 < 26" by simp
  from ai_frame [of "n mod 26" "n div 26"] obtain c' where
    "typing_after ai_words (26 * (n div 26) + Suc (n mod 26)) initTypingEffect = Some c'"
    by auto
  then have "typing_after ai_words (Suc n) initTypingEffect = Some c'" by simp
  then have "typing_after ai_words (n + 1) initTypingEffect \<noteq> None" by simp
  then obtain c where "typing_after ai_words n initTypingEffect = Some c"
    by (auto simp only: typing_after_add split: option.splits)
  then show "length (typing_frames ai_words n initTypingEffect) = n"
    by (rule typing_frames_length)
next
  assume k: "k < n"
  from ai_frame [of "k mod 26" "k div 26"] obtain c' where
    c': "typing_after ai_words (26 * (k div 26) + Suc (k mod 26)) initTypingEffect = Some c'"
    and v: "fst c' = 1200 + 3895 * (k div 26) + ai_offset (k mod 26)"
       "hero_text (fst (snd c')) = ai_text (k mod 26)"
    by auto
  from c' have "typing_after ai_words (Suc k) initTypingEffect = Some c'" by simp
  from typing_frames_nth [OF k this] v
  show "typing_frames ai_words n initTypingEffect ! k
     = (1200 + 3895 * (k div 26) + ai_offset (k mod 26), ai_text (k mod 26))"
    by simp
qed

lemma tick_last_delete:
  assumes "wordIdx s < length ws" and "deleting s" and "\<not> paused s" and "charIdx s = 1"
  shows "\<exists>s'. tick ws s = Inr (s', TickIn 95) \<and> hero_text s' = [] \<and> charIdx s' = 0
            \<and> \<not> deleting s' \<and> wordIdx s' = (wordIdx s + 1) mod length ws"
  using assms by (simp add: tick_def js_slice0_def Let_def)

text \<open>
  Claim C6. With the word list \<open>["AI Enthusiast"]\<close> the effect never stops: for every
  \<open>n\<close> there are \<open>n\<close> frames. The frames come in cycles of 26 that start 3895 ms
  apart, the first at 1200 ms. In a cycle, frames 0 to 12 are 95 ms apart and show
  the first 1 to 13 characters; frame 13 comes 2000 ms after the full word and
  frames 13 to 25 are 55 ms apart and show the first 12 down to 0 characters; the
  next cycle starts 95 ms after the empty text. For any word list, the tick that
  deletes the last character advances the word index by one modulo the length of
  the list and schedules the next tick 95 ms later.
\<close>

theorem typing_cycle_single_word:
  "length (typing_frames [ascii ''AI Enthusiast''] n initTypingEffect) = n
   \<and> (\<forall>k < n. typing_frames [ascii ''AI Enthusiast''] n initTypingEffect ! k
         = (1200 + 3895 * (k div 26)
              + (if k mod 26 < 13 then 95 * (k mod 26) else 12 * 95 + 2000 + 55 * (k mod 26 - 13)),
            if k mod 26 < 13 then take (k mod 26 + 1) (ascii ''AI Enthusiast'')
            else take (25 - k mod 26) (ascii ''AI Enthusiast'')))
   \<and> (\<forall>ws s. wordIdx s < length ws \<and> deleting s \<and> \<not> paused s \<and> charIdx s = 1
         \<longrightarrow> (\<exists>s'. tick ws s = Inr (s', TickIn 95) \<and> hero_text s' = [] \<and> charIdx s' = 0
                  \<and> \<not> deleting s' \<and> wordIdx s' = (wordIdx s + 1) mod length ws))"
proof -
  have 1: "length (typing_frames [ascii ''AI Enthusiast''] n initTypingEffect) = n"
    using ai_frames_all(1) [of n] by (simp add: ai_words_def)
  have 2: "typing_frames [ascii ''AI Enthusiast''] n initTypingEffect ! k
         = (1200 + 3895 * (k div 26)
              + (if k mod 26 < 13 then 95 * (k mod 26) else 12 * 95 + 2000 + 55 * (k mod 26 - 13)),
            if k mod 26 < 13 then take (k mod 26 + 1) (ascii ''AI Enthusiast'')
            else take (25 - k mod 26) (ascii ''AI Enthusiast''))" if "k < n" for k
    using ai_frames_all(2) [OF that] by (simp only: ai_words_def ai_offset_def ai_text_def)
  from 1 2 tick_last_delete show ?thesis by blast
qed

theorem typing_cycle_single_word_witness:
  "typing_frames [ascii ''AI Enthusiast''] 27 initTypingEffect ! 0 = (1200, ascii ''A'')
   \<and> typing_frames [ascii ''AI Enthusiast''] 27 initTypingEffect ! 12 = (2340, ascii ''AI Enthusiast'')
   \<and> typing_frames [ascii ''AI Enthusiast''] 27 initTypingEffect ! 13 = (4340, ascii ''AI Enthusias'')
   \<and> typing_frames [ascii ''AI Enthusiast''] 27 initTypingEffect ! 25 = (5000, [])
   \<and> typing_frames [ascii ''AI Enthusiast''] 27 initTypingEffect ! 26 = (5095, ascii ''A'')
   \<and> tick hero_words \<lparr>wordIdx = 3, charIdx = 1, deleting = True, paused = False,
                        hero_text = ascii ''S''\<rparr>
       = Inr (\<lparr>wordIdx = 0, charIdx = 0, deleting = False, paused = False, hero_text = []\<rparr>,
              TickIn 95)"
proof -
  note th = typing_cycle_single_word [of 27]
  note fr = th [THEN conjunct2, THEN conjunct1, rule_format]
  have "typing_frames [ascii ''AI Enthusiast''] 27 initTypingEffect ! 0 = (1200, ascii ''A'')"
    using fr [of 0] by (simp add: ascii_def)
  moreover have "typing_frames [ascii ''AI Enthusiast''] 27 initTypingEffect ! 12
                 = (2340, ascii ''AI Enthusiast'')"
    using fr [of 12] by (simp add: ascii_def)
  moreover have "typing_frames [ascii ''AI Enthusiast''] 27 initTypingEffect ! 13
                 = (4340, ascii ''AI Enthusias'')"
    using fr [of 13] by (simp add: ascii_def)
  moreover have "typing_frames [ascii ''AI Enthusiast''] 27 initTypingEffect ! 25 = (5000, [])"
    using fr [of 25] by (simp add: ascii_def)
  moreover have "typing_frames [ascii ''AI Enthusiast''] 27 initTypingEffect ! 26 = (5095, ascii ''A'')"
    using fr [of 26] by (simp add: ascii_def)
  moreover have "tick hero_words \<lparr>wordIdx = 3, charIdx = 1, deleting = True, paused = False,
                        hero_text = ascii ''S''\<rparr>
       = Inr (\<lparr>wordIdx = 0, charIdx = 0, deleting = False, paused = False, hero_text = []\<rparr>,
              TickIn 95)"
    by (simp add: tick_def hero_words_def js_slice0_def Let_def)
  ultimately show ?thesis by blast
qed

subsection \<open>Observers fire once\<close>

lemma single_fire_skill: "single_fire skill_entry bars_observed width_sets"
  by (simp add: single_fire_def skill_entry_def Let_def)

lemma single_fire_counter: "single_fire counter_entry ctr_observed anim_starts"
  by (simp add: single_fire_def counter_entry_def Let_def split: option.splits)

lemma single_fire_reveal: "single_fire reveal_entry rv_observed triggers"
  by (simp add: single_fire_def reveal_entry_def Let_def)

lemma single_fireD:
  "single_fire f obs lg \<Longrightarrow>
   (obs (f e s) = obs s \<and> lg (f e s) = lg s)
   \<or> (obs (f e s) = obs s - {target e} \<and> lg (f e s) = lg s @ [target e])"
  unfolding single_fire_def by blast

lemma single_fire_others:
  assumes "single_fire f obs lg" and "\<forall>e \<in> set es. target e \<noteq> i"
  shows "count_list (lg (fold f es s)) i = count_list (lg s) i
         \<and> (i \<in> obs (fold f es s) \<longleftrightarrow> i \<in> obs s)"
  using assms(2)
proof (induction es arbitrary: s)
  case Nil
  then show ?case by simp
next
  case (Cons e es)
  from Cons.prems have ne: "target e \<noteq> i" by simp
  have "count_list (lg (f e s)) i = count_list (lg s) i \<and> (i \<in> obs (f e s) \<longleftrightarrow> i \<in> obs s)"
    using single_fireD [OF assms(1), of e s] ne by (elim disjE conjE) simp_all
  moreover from Cons.prems have "\<forall>e \<in> set es. target e \<noteq> i" by simp
  from Cons.IH [OF this, of "f e s"] have
    "count_list (lg (fold f es (f e s))) i = count_list (lg (f e s)) i
     \<and> (i \<in> obs (fold f es (f e s)) \<longleftrightarrow> i \<in> obs (f e s))" .
  ultimately show ?case by simp
qed

lemma single_fire_shrinks:
  assumes "single_fire f obs lg"
  shows "obs (fold f es s) \<subseteq> obs s"
proof (induction es arbitrary: s)
  case Nil
  then show ?case by simp
next
  case (Cons e es)
  have "obs (f e s) \<subseteq> obs s"
    using single_fireD [OF assms, of e s] by (elim disjE conjE) simp_all
  with Cons.IH [of "f e s"] show ?case by simp
qed

lemma single_fire_unobserved:
  assumes "single_fire f obs lg" and "i \<notin> obs s"
  shows "count_list (lg (fold f (deliverable (obs s) es) s)) i = count_list (lg s) i
         \<and> i \<notin> obs (fold f (deliverable (obs s) es) s)"
proof -
  have "\<forall>e \<in> set (deliverable (obs s) es). target e \<noteq> i"
    using assms(2) by (auto simp: deliverable_def)
  from single_fire_others [OF assms(1) this, of s] assms(2) show ?thesis by simp
qed

lemma single_fire_once:
  assumes "single_fire f obs lg"
  shows "distinct (map target es) \<Longrightarrow> \<forall>e \<in> set es. target e \<in> obs s \<Longrightarrow>
         fired_once (obs s) (lg s) \<Longrightarrow> fired_once (obs (fold f es s)) (lg (fold f es s))"
proof (induction es arbitrary: s)
  case Nil
  then show ?case by simp
next
  case (Cons e es)
  note cases = single_fireD [OF assms, of e s]
  from Cons.prems have te: "target e \<in> obs s"
    and d: "distinct (map target es)" and rest: "\<forall>e' \<in> set es. target e' \<in> obs s"
    by auto
  from Cons.prems(1) have "target e \<notin> target ` set es" by simp
  then have ne: "\<forall>e' \<in> set es. target e' \<noteq> target e" by (metis imageI)
  from Cons.prems(3) te have zero: "count_list (lg s) (target e) = 0"
    by (simp add: fired_once_def)
  have inv: "fired_once (obs (f e s)) (lg (f e s))"
  proof (rule disjE [OF cases])
    assume "obs (f e s) = obs s \<and> lg (f e s) = lg s"
    with Cons.prems(3) show ?thesis by simp
  next
    assume a: "obs (f e s) = obs s - {target e} \<and> lg (f e s) = lg s @ [target e]"
    have "count_list (lg s @ [target e]) i \<le> 1
          \<and> (i \<in> obs s - {target e} \<longrightarrow> count_list (lg s @ [target e]) i = 0)" for i
      using Cons.prems(3) zero unfolding fired_once_def
      by (cases "i = target e") simp_all
    with a show ?thesis by (simp add: fired_once_def)
  qed
  have "\<forall>e' \<in> set es. target e' \<in> obs (f e s)"
  proof (rule disjE [OF cases])
    assume "obs (f e s) = obs s \<and> lg (f e s) = lg s"
    with rest show ?thesis by simp
  next
    assume "obs (f e s) = obs s - {target e} \<and> lg (f e s) = lg s @ [target e]"
    with rest ne show ?thesis by simp
  qed
  from Cons.IH [OF d this inv] show ?case by simp
qed

lemma single_fire_notify_once:
  assumes "single_fire f obs lg" and "one_entry_each es" and "fired_once (obs s) (lg s)"
  shows "fired_once (obs (fold f (deliverable (obs s) es) s)) (lg (fold f (deliverable (obs s) es) s))"
proof -
  have "distinct (map target (deliverable (obs s) es))"
    using assms(2) by (simp add: one_entry_each_def deliverable_def distinct_map_filter)
  moreover have "\<forall>e \<in> set (deliverable (obs s) es). target e \<in> obs s"
    by (simp add: deliverable_def)
  ultimately show ?thesis using single_fire_once [OF assms(1)] assms(3) by blast
qed

text \<open>
  If handling the entry \<open>e\<close> establishes \<open>Q\<close> in every state satisfying \<open>K\<close>, and
  every entry keeps \<open>K\<close> and \<open>Q\<close>, then \<open>Q\<close> holds after a batch containing \<open>e\<close>.
\<close>

lemma fold_established:
  assumes keep: "\<And>e' s. K s \<Longrightarrow> K (f e' s)"
    and fire: "\<And>s. K s \<Longrightarrow> Q (f e s)"
    and stay: "\<And>e' s. K s \<Longrightarrow> Q s \<Longrightarrow> Q (f e' s)"
  shows "e \<in> set es \<Longrightarrow> K s \<Longrightarrow> Q (fold f es s)"
proof -
  have kept: "K s \<Longrightarrow> Q s \<Longrightarrow> Q (fold f es s)" for es s
    by (induction es arbitrary: s) (simp_all add: keep stay)
  show "e \<in> set es \<Longrightarrow> K s \<Longrightarrow> Q (fold f es s)"
  proof (induction es arbitrary: s)
    case Nil
    then show ?case by simp
  next
    case (Cons e' es)
    show ?case
    proof (cases "e = e'")
      case True
      from fire [OF Cons.prems(2)] True have "Q (f e' s)" by simp
      from kept [OF keep [OF Cons.prems(2)] this] show ?thesis by simp
    next
      case False
      with Cons.prems have "e \<in> set es" by simp
      from Cons.IH [OF this keep [OF Cons.prems(2)]] show ?thesis by simp
    qed
  qed
qed

lemma deliverable_mem:
  "e \<in> set es \<Longrightarrow> target e \<in> obs \<Longrightarrow> e \<in> set (deliverable obs es)"
  by (simp add: deliverable_def)

subsubsection \<open>Skill bars\<close>

lemma skill_entry_length: "length (bars (skill_entry e s)) = length (bars s)"
  by (simp add: skill_entry_def Let_def)

lemma skill_entry_unobserves:
  "isIntersecting e \<Longrightarrow> target e < length (bars s) \<Longrightarrow>
   target e \<notin> bars_observed (skill_entry e s)"
  by (simp add: skill_entry_def Let_def)

lemma skill_entry_shrinks: "i \<notin> bars_observed s \<Longrightarrow> i \<notin> bars_observed (skill_entry e s)"
  by (simp add: skill_entry_def Let_def)

lemma skill_entry_other: "target e \<noteq> i \<Longrightarrow> bars (skill_entry e s) ! i = bars s ! i"
  by (simp add: skill_entry_def Let_def)

lemma skill_fold_other:
  "\<forall>e \<in> set es. target e \<noteq> i \<Longrightarrow> bars (fold skill_entry es s) ! i = bars s ! i"
  by (induction es arbitrary: s) (simp_all add: skill_entry_other)

lemma skill_triggered:
  assumes "i < length (bars s)" and "i \<in> bars_observed s"
    and "e \<in> set es" and "target e = i" and "isIntersecting e"
  shows "i \<notin> bars_observed (skill_notify es s)"
proof -
  from assms have mem: "e \<in> set (deliverable (bars_observed s) es)" by (simp add: deliverable_mem)
  have "i \<notin> bars_observed (fold skill_entry (deliverable (bars_observed s) es) s)"
  proof (rule fold_established [where K = "\<lambda>s. i < length (bars s)" and e = e, OF _ _ _ mem assms(1)])
    show "i < length (bars (skill_entry e' s))" if "i < length (bars s)" for e' s
      using that by (simp add: skill_entry_length)
    show "i \<notin> bars_observed (skill_entry e s)" if "i < length (bars s)" for s
      using that assms(4,5) skill_entry_unobserves [of e s] by simp
    show "i \<notin> bars_observed (skill_entry e' s)" if "i \<notin> bars_observed s" for e' s
      using that by (rule skill_entry_shrinks)
  qed
  then show ?thesis by (simp add: skill_notify_def skill_callback_def)
qed

lemma skill_later:
  assumes "i \<notin> bars_observed s"
  shows "i \<notin> bars_observed (skill_run bs s) \<and> bars (skill_run bs s) ! i = bars s ! i
         \<and> count_list (width_sets (skill_run bs s)) i = count_list (width_sets s) i"
  using assms
proof (induction bs arbitrary: s)
  case Nil
  then show ?case by (simp add: skill_run_def)
next
  case (Cons es bs)
  have others: "\<forall>e \<in> set (deliverable (bars_observed s) es). target e \<noteq> i"
    using Cons.prems by (auto simp: deliverable_def)
  from single_fire_unobserved [OF single_fire_skill Cons.prems, of es]
  have 1: "count_list (width_sets (skill_notify es s)) i = count_list (width_sets s) i"
    and 2: "i \<notin> bars_observed (skill_notify es s)"
    by (simp_all add: skill_notify_def skill_callback_def)
  have 3: "bars (skill_notify es s) ! i = bars s ! i"
    using skill_fold_other [OF others] by (simp add: skill_notify_def skill_callback_def)
  from Cons.IH [OF 2] 1 3 show ?case by (simp add: skill_run_def)
qed

lemma skill_once:
  assumes "\<forall>es \<in> set bs. one_entry_each es" and "fired_once (bars_observed s) (width_sets s)"
  shows "fired_once (bars_observed (skill_run bs s)) (width_sets (skill_run bs s))"
  using assms
proof (induction bs arbitrary: s)
  case Nil
  then show ?case by (simp add: skill_run_def)
next
  case (Cons es bs)
  from Cons.prems have "one_entry_each es" by simp
  from single_fire_notify_once [OF single_fire_skill this Cons.prems(2)]
  have "fired_once (bars_observed (skill_notify es s)) (width_sets (skill_notify es s))"
    by (simp add: skill_notify_def skill_callback_def)
  with Cons.IH [of "skill_notify es s"] Cons.prems(1) show ?case by (simp add: skill_run_def)
qed

subsubsection \<open>Counters\<close>

lemma counter_entry_texts: "texts (counter_entry e s) = texts s"
  by (simp add: counter_entry_def Let_def split: option.splits)

lemma counter_entry_unobserves:
  "isIntersecting e \<Longrightarrow> target e < length (texts s) \<Longrightarrow>
   parseInt_digits (filter is_digit (texts s ! target e)) = Some n \<Longrightarrow> 0 < n \<Longrightarrow>
   target e \<notin> ctr_observed (counter_entry e s)"
  by (simp add: counter_entry_def Let_def)

lemma counter_entry_shrinks: "i \<notin> ctr_observed s \<Longrightarrow> i \<notin> ctr_observed (counter_entry e s)"
  by (simp add: counter_entry_def Let_def split: option.splits)

lemma counter_triggered:
  assumes "i < length (texts s)" and "i \<in> ctr_observed s"
    and "e \<in> set es" and "target e = i" and "isIntersecting e"
    and "parseInt_digits (filter is_digit (texts s ! i)) = Some n" and "0 < n"
  shows "i \<notin> ctr_observed (counter_notify es s)"
proof -
  from assms have mem: "e \<in> set (deliverable (ctr_observed s) es)" by (simp add: deliverable_mem)
  let ?K = "\<lambda>s'. texts s' = texts s"
  have "i \<notin> ctr_observed (fold counter_entry (deliverable (ctr_observed s) es) s)"
  proof (rule fold_established [where K = ?K and e = e, OF _ _ _ mem refl])
    show "texts (counter_entry e' s') = texts s" if "texts s' = texts s" for e' s'
      using that by (simp add: counter_entry_texts)
    show "i \<notin> ctr_observed (counter_entry e s')" if "texts s' = texts s" for s'
      using that assms counter_entry_unobserves [of e s' n] by simp
    show "i \<notin> ctr_observed (counter_entry e' s')" if "i \<notin> ctr_observed s'" for e' s'
      using that by (rule counter_entry_shrinks)
  qed
  then show ?thesis by (simp add: counter_notify_def counter_callback_def)
qed

lemma counter_fire_same:
  "ctr_observed (counter_fire k s) = ctr_observed s \<and> anim_starts (counter_fire k s) = anim_starts s"
  by (simp add: counter_fire_def split: prod.splits)

lemma counter_later:
  assumes "i \<notin> ctr_observed s"
  shows "i \<notin> ctr_observed (counter_run evs s)
         \<and> count_list (anim_starts (counter_run evs s)) i = count_list (anim_starts s) i"
  using assms
proof (induction evs arbitrary: s)
  case Nil
  then show ?case by (simp add: counter_run_def)
next
  case (Cons ev evs)
  have "i \<notin> ctr_observed (counter_step ev s)
        \<and> count_list (anim_starts (counter_step ev s)) i = count_list (anim_starts s) i"
  proof (cases ev)
    case (Intersections es)
    from single_fire_unobserved [OF single_fire_counter Cons.prems, of es] Intersections
    show ?thesis by (simp add: counter_notify_def counter_callback_def)
  next
    case (IntervalFires k)
    with Cons.prems show ?thesis by (simp add: counter_fire_same)
  qed
  with Cons.IH [of "counter_step ev s"] show ?case by (simp add: counter_run_def)
qed

lemma counter_once:
  assumes "\<forall>es. Intersections es \<in> set evs \<longrightarrow> one_entry_each es"
    and "fired_once (ctr_observed s) (anim_starts s)"
  shows "fired_once (ctr_observed (counter_run evs s)) (anim_starts (counter_run evs s))"
  using assms
proof (induction evs arbitrary: s)
  case Nil
  then show ?case by (simp add: counter_run_def)
next
  case (Cons ev evs)
  have "fired_once (ctr_observed (counter_step ev s)) (anim_starts (counter_step ev s))"
  proof (cases ev)
    case (Intersections es)
    with Cons.prems(1) have "one_entry_each es" by simp
    from single_fire_notify_once [OF single_fire_counter this Cons.prems(2)] Intersections
    show ?thesis by (simp add: counter_notify_def counter_callback_def)
  next
    case (IntervalFires k)
    with Cons.prems(2) show ?thesis by (simp add: counter_fire_same)
  qed
  with Cons.IH [of "counter_step ev s"] Cons.prems(1) show ?case by (simp add: counter_run_def)
qed

subsubsection \<open>Reveal\<close>

lemma add_visible_length: "length (add_visible j es) = length es"
  by (simp add: add_visible_def)

lemma add_visible_keeps: "i < length es \<Longrightarrow> visible (es ! i) \<Longrightarrow> visible (add_visible j es ! i)"
  by (simp add: add_visible_def nth_list_update)

lemma add_visible_sets: "i < length es \<Longrightarrow> visible (add_visible i es ! i)"
  by (simp add: add_visible_def)

lemma reveal_entry_length: "length (els (reveal_entry e s)) = length (els s)"
  by (simp add: reveal_entry_def Let_def add_visible_length)

lemma reveal_entry_keeps:
  "i < length (els s) \<Longrightarrow> visible (els s ! i) \<Longrightarrow> visible (els (reveal_entry e s) ! i)"
  by (simp add: reveal_entry_def Let_def add_visible_keeps)

lemma reveal_entry_fires:
  "isIntersecting e \<Longrightarrow> target e < length (els s) \<Longrightarrow>
   target e \<notin> rv_observed (reveal_entry e s) \<and> visible (els (reveal_entry e s) ! target e)"
  by (simp add: reveal_entry_def Let_def add_visible_sets)

lemma reveal_entry_shrinks: "i \<notin> rv_observed s \<Longrightarrow> i \<notin> rv_observed (reveal_entry e s)"
  by (simp add: reveal_entry_def Let_def)

lemma visible_not_staggered:
  "i < length es \<Longrightarrow> visible (es ! i) \<Longrightarrow> count_list (not_visible_inside p es) i = 0"
  by (simp add: not_visible_inside_def count_list_0_iff)

lemma reveal_entry_staggered:
  "i < length (els s) \<Longrightarrow> visible (els s ! i) \<Longrightarrow>
   count_list (staggered (reveal_entry e s)) i = count_list (staggered s) i"
  by (simp add: reveal_entry_def Let_def visible_not_staggered)

lemma reveal_fold_staggered:
  "i < length (els s) \<Longrightarrow> visible (els s ! i) \<Longrightarrow>
   i < length (els (fold reveal_entry es s)) \<and> visible (els (fold reveal_entry es s) ! i)
   \<and> count_list (staggered (fold reveal_entry es s)) i = count_list (staggered s) i"
proof (induction es arbitrary: s)
  case Nil
  then show ?case by simp
next
  case (Cons e es)
  from Cons.prems have "i < length (els (reveal_entry e s))" "visible (els (reveal_entry e s) ! i)"
    by (simp_all add: reveal_entry_length reveal_entry_keeps)
  from Cons.IH [OF this] Cons.prems show ?case by (simp add: reveal_entry_staggered)
qed

lemma reveal_triggered:
  assumes "i < length (els s)" and "i \<in> rv_observed s"
    and "e \<in> set es" and "target e = i" and "isIntersecting e"
  shows "i \<notin> rv_observed (reveal_notify es s) \<and> i < length (els (reveal_notify es s))
         \<and> visible (els (reveal_notify es s) ! i)"
proof -
  from assms have mem: "e \<in> set (deliverable (rv_observed s) es)" by (simp add: deliverable_mem)
  let ?Q = "\<lambda>s. i \<notin> rv_observed s \<and> visible (els s ! i)"
  let ?K = "\<lambda>s. i < length (els s)"
  have keep: "i < length (els (reveal_entry e' s))" if "i < length (els s)" for e' s
    using that by (simp add: reveal_entry_length)
  have kept: "?K (fold reveal_entry bs s)" if "?K s" for bs s
    using that by (induction bs arbitrary: s) (simp_all add: keep)
  have "?Q (fold reveal_entry (deliverable (rv_observed s) es) s)"
  proof (rule fold_established [where K = ?K and Q = ?Q and e = e, OF _ _ _ mem assms(1)])
    show "i < length (els (reveal_entry e' s))" if "i < length (els s)" for e' s
      using that by (rule keep)
    show "?Q (reveal_entry e s)" if "i < length (els s)" for s
      using that assms(4,5) reveal_entry_fires [of e s] by simp
    show "?Q (reveal_entry e' s)" if "i < length (els s)" and "?Q s" for e' s
      using that by (simp add: reveal_entry_shrinks reveal_entry_keeps)
  qed
  with kept [OF assms(1)] show ?thesis by (simp add: reveal_notify_def reveal_callback_def)
qed

lemma reveal_advance_keeps:
  assumes "i < length (els s)" and "visible (els s ! i)"
  shows "i < length (els (reveal_advance t s)) \<and> visible (els (reveal_advance t s) ! i)"
proof -
  have "i < length (fold (\<lambda>x. add_visible (snd x)) xs es) \<and> visible (fold (\<lambda>x. add_visible (snd x)) xs es ! i)"
    if "i < length es" and "visible (es ! i)" for xs :: "(nat \<times> nat) list" and es
    using that by (induction xs arbitrary: es) (simp_all add: add_visible_length add_visible_keeps)
  from this [OF assms] show ?thesis by (simp add: reveal_advance_def)
qed

lemma reveal_later:
  assumes "i \<notin> rv_observed s" and "i < length (els s)" and "visible (els s ! i)"
  shows "i \<notin> rv_observed (reveal_run evs s) \<and> visible (els (reveal_run evs s) ! i)
         \<and> count_list (triggers (reveal_run evs s)) i = count_list (triggers s) i
         \<and> count_list (staggered (reveal_run evs s)) i = count_list (staggered s) i"
  using assms
proof (induction evs arbitrary: s)
  case Nil
  then show ?case by (simp add: reveal_run_def)
next
  case (Cons ev evs)
  have "i \<notin> rv_observed (reveal_step ev s) \<and> i < length (els (reveal_step ev s))
        \<and> visible (els (reveal_step ev s) ! i)
        \<and> count_list (triggers (reveal_step ev s)) i = count_list (triggers s) i
        \<and> count_list (staggered (reveal_step ev s)) i = count_list (staggered s) i"
  proof (cases ev)
    case (RevealIntersections es)
    from single_fire_unobserved [OF single_fire_reveal Cons.prems(1), of es]
      reveal_fold_staggered [OF Cons.prems(2,3), of "deliverable (rv_observed s) es"]
      RevealIntersections
    show ?thesis by (simp add: reveal_notify_def reveal_callback_def)
  next
    case (RevealTime t)
    from reveal_advance_keeps [OF Cons.prems(2,3), of t] Cons.prems(1) RevealTime
    show ?thesis by (simp add: reveal_advance_def)
  qed
  with Cons.IH [of "reveal_step ev s"] show ?case by (simp add: reveal_run_def)
qed

lemma reveal_once:
  assumes "\<forall>es. RevealIntersections es \<in> set evs \<longrightarrow> one_entry_each es"
    and "fired_once (rv_observed s) (triggers s)"
  shows "fired_once (rv_observed (reveal_run evs s)) (triggers (reveal_run evs s))"
  using assms
proof (induction evs arbitrary: s)
  case Nil
  then show ?case by (simp add: reveal_run_def)
next
  case (Cons ev evs)
  have "fired_once (rv_observed (reveal_step ev s)) (triggers (reveal_step ev s))"
  proof (cases ev)
    case (RevealIntersections es)
    with Cons.prems(1) have "one_entry_each es" by simp
    from single_fire_notify_once [OF single_fire_reveal this Cons.prems(2)] RevealIntersections
    show ?thesis by (simp add: reveal_notify_def reveal_callback_def)
  next
    case (RevealTime t)
    with Cons.prems(2) show ?thesis by (simp add: reveal_advance_def)
  qed
  with Cons.IH [of "reveal_step ev s"] Cons.prems(1) show ?case by (simp add: reveal_run_def)
qed

text \<open>
  Claim C7, amended. For an element watched by the reveal or the skill-bar observer,
  and for a counter element whose text parses to a positive number: once a batch
  with an intersecting entry for the observed element has been handled, the element
  is unobserved, and after any later sequence of batches (and timers) it is still
  unobserved and no further effect has been applied to it: the count of its own
  triggers, of the timers set for it, of its width assignments and of its animation
  starts is what it was, the class \<open>visible\<close> stays and the bar is the same.
  A counter element whose text has no digit or parses to 0 is not covered: it stays
  observed. From page load, when every batch holds at most one entry per target, each
  of the three effects is applied at most once per element.
\<close>

theorem observers_fire_once:
  "(i < length (els r) \<and> i \<in> rv_observed r \<and> intersects i es \<longrightarrow>
      i \<notin> rv_observed (reveal_notify es r)
      \<and> (\<forall>evs. i \<notin> rv_observed (reveal_run evs (reveal_notify es r))
             \<and> visible (els (reveal_run evs (reveal_notify es r)) ! i)
             \<and> count_list (triggers (reveal_run evs (reveal_notify es r))) i
                 = count_list (triggers (reveal_notify es r)) i
             \<and> count_list (staggered (reveal_run evs (reveal_notify es r))) i
                 = count_list (staggered (reveal_notify es r)) i))
   \<and> (i < length (bars k) \<and> i \<in> bars_observed k \<and> intersects i es \<longrightarrow>
      i \<notin> bars_observed (skill_notify es k)
      \<and> (\<forall>bs. i \<notin> bars_observed (skill_run bs (skill_notify es k))
            \<and> bars (skill_run bs (skill_notify es k)) ! i = bars (skill_notify es k) ! i
            \<and> count_list (width_sets (skill_run bs (skill_notify es k))) i
                = count_list (width_sets (skill_notify es k)) i))
   \<and> (i < length (texts c) \<and> i \<in> ctr_observed c \<and> intersects i es
       \<and> parseInt_digits (filter is_digit (texts c ! i)) = Some n \<and> 0 < n \<longrightarrow>
      i \<notin> ctr_observed (counter_notify es c)
      \<and> (\<forall>evs. i \<notin> ctr_observed (counter_run evs (counter_notify es c))
             \<and> count_list (anim_starts (counter_run evs (counter_notify es c))) i
                 = count_list (anim_starts (counter_notify es c)) i))
   \<and> ((\<forall>b. RevealIntersections b \<in> set revs \<longrightarrow> one_entry_each b) \<longrightarrow>
        count_list (triggers (reveal_run revs (initReveal rels))) i \<le> 1)
   \<and> ((\<forall>b \<in> set sbs. one_entry_each b) \<longrightarrow>
        count_list (width_sets (skill_run sbs (initSkillBars sb))) i \<le> 1)
   \<and> ((\<forall>b. Intersections b \<in> set cevs \<longrightarrow> one_entry_each b) \<longrightarrow>
        count_list (anim_starts (counter_run cevs (initCounters cts))) i \<le> 1)"
proof -
  have 1: "i \<notin> rv_observed (reveal_notify es r)
      \<and> (\<forall>evs. i \<notin> rv_observed (reveal_run evs (reveal_notify es r))
             \<and> visible (els (reveal_run evs (reveal_notify es r)) ! i)
             \<and> count_list (triggers (reveal_run evs (reveal_notify es r))) i
                 = count_list (triggers (reveal_notify es r)) i
             \<and> count_list (staggered (reveal_run evs (reveal_notify es r))) i
                 = count_list (staggered (reveal_notify es r)) i)"
    if "i < length (els r)" "i \<in> rv_observed r" "intersects i es"
  proof -
    from that(3) obtain e where "e \<in> set es" "target e = i" "isIntersecting e"
      by (auto simp: intersects_def list_ex_iff)
    from reveal_triggered [OF that(1,2) this]
    have t: "i \<notin> rv_observed (reveal_notify es r)" "i < length (els (reveal_notify es r))"
      "visible (els (reveal_notify es r) ! i)" by simp_all
    from reveal_later [OF t] t(1) show ?thesis by blast
  qed
  have 2: "i \<notin> bars_observed (skill_notify es k)
      \<and> (\<forall>bs. i \<notin> bars_observed (skill_run bs (skill_notify es k))
            \<and> bars (skill_run bs (skill_notify es k)) ! i = bars (skill_notify es k) ! i
            \<and> count_list (width_sets (skill_run bs (skill_notify es k))) i
                = count_list (width_sets (skill_notify es k)) i)"
    if "i < length (bars k)" "i \<in> bars_observed k" "intersects i es"
  proof -
    from that(3) obtain e where "e \<in> set es" "target e = i" "isIntersecting e"
      by (auto simp: intersects_def list_ex_iff)
    from skill_triggered [OF that(1,2) this] have t: "i \<notin> bars_observed (skill_notify es k)" .
    from skill_later [OF t] t show ?thesis by blast
  qed
  have 3: "i \<notin> ctr_observed (counter_notify es c)
      \<and> (\<forall>evs. i \<notin> ctr_observed (counter_run evs (counter_notify es c))
             \<and> count_list (anim_starts (counter_run evs (counter_notify es c))) i
                 = count_list (anim_starts (counter_notify es c)) i)"
    if "i < length (texts c)" "i \<in> ctr_observed c" "intersects i es"
      "parseInt_digits (filter is_digit (texts c ! i)) = Some n" "0 < n"
  proof -
    from that(3) obtain e where "e \<in> set es" "target e = i" "isIntersecting e"
      by (auto simp: intersects_def list_ex_iff)
    from counter_triggered [OF that(1,2) this that(4,5)]
    have t: "i \<notin> ctr_observed (counter_notify es c)" .
    from counter_later [OF t] t show ?thesis by blast
  qed
  have 4: "count_list (triggers (reveal_run revs (initReveal rels))) i \<le> 1"
    if "\<forall>b. RevealIntersections b \<in> set revs \<longrightarrow> one_entry_each b"
  proof -
    have "fired_once (rv_observed (initReveal rels)) (triggers (initReveal rels))"
      by (simp add: fired_once_def initReveal_def)
    from reveal_once [OF that this] show ?thesis by (simp add: fired_once_def)
  qed
  have 5: "count_list (width_sets (skill_run sbs (initSkillBars sb))) i \<le> 1"
    if "\<forall>b \<in> set sbs. one_entry_each b"
  proof -
    have "fired_once (bars_observed (initSkillBars sb)) (width_sets (initSkillBars sb))"
      by (simp add: fired_once_def initSkillBars_def)
    from skill_once [OF that this] show ?thesis by (simp add: fired_once_def)
  qed
  have 6: "count_list (anim_starts (counter_run cevs (initCounters cts))) i \<le> 1"
    if "\<forall>b. Intersections b \<in> set cevs \<longrightarrow> one_entry_each b"
  proof -
    have "fired_once (ctr_observed (initCounters cts)) (anim_starts (initCounters cts))"
      by (simp add: fired_once_def initCounters_def)
    from counter_once [OF that this] show ?thesis by (simp add: fired_once_def)
  qed
  from 1 2 3 4 5 6 show ?thesis by blast
qed

text \<open>
  The claim as stated fails for a counter whose text parses to 0: its callback fires
  with an intersecting entry and the element is still observed.
\<close>

theorem zero_counter_counterexample:
  "0 \<in> ctr_observed (counter_notify [enters 0] (initCounters [ascii ''0%'']))"
  by (simp add: counter_notify_def counter_callback_def counter_entry_def deliverable_def
      initCounters_def enters_def ascii_def is_digit_def parseInt_digits_def digit_val_def Let_def)

theorem observers_fire_once_witness:
  "(\<forall>evs. 0 \<notin> rv_observed (reveal_run evs (reveal_notify [enters 0] two_reveals))
          \<and> count_list (triggers (reveal_run evs (reveal_notify [enters 0] two_reveals))) 0 = 1)
   \<and> (\<forall>bs. 0 \<notin> bars_observed (skill_run bs (skill_notify [enters 0] two_bars))
          \<and> count_list (width_sets (skill_run bs (skill_notify [enters 0] two_bars))) 0 = 1)
   \<and> (\<forall>evs. 0 \<notin> ctr_observed (counter_run evs (counter_notify [enters 0] (initCounters [ascii ''42+''])))
          \<and> count_list (anim_starts
                (counter_run evs (counter_notify [enters 0] (initCounters [ascii ''42+''])))) 0 = 1)
   \<and> count_list (triggers (reveal_run
          [RevealIntersections [enters 0, enters 1], RevealTime 200, RevealIntersections [leaves 0],
           RevealIntersections [enters 0]] (initReveal (els two_reveals)))) 0 \<le> 1
   \<and> count_list (width_sets (skill_run [[enters 0], [leaves 0], [enters 0]]
          (initSkillBars (bars two_bars)))) 0 \<le> 1
   \<and> count_list (anim_starts (counter_run
          [Intersections [enters 0], IntervalFires 0, Intersections [leaves 0], Intersections [enters 0]]
          (initCounters [ascii ''42+'']))) 0 \<le> 1"
proof -
  note th = observers_fire_once [where i = 0 and r = two_reveals and es = "[enters 0]"
      and k = two_bars and c = "initCounters [ascii ''42+'']" and n = 42
      and revs = "[RevealIntersections [enters 0, enters 1], RevealTime 200,
                   RevealIntersections [leaves 0], RevealIntersections [enters 0]]"
      and rels = "els two_reveals"
      and sbs = "[[enters 0], [leaves 0], [enters 0]]" and sb = "bars two_bars"
      and cevs = "[Intersections [enters 0], IntervalFires 0, Intersections [leaves 0],
                   Intersections [enters 0]]"
      and cts = "[ascii ''42+'']"]
  have h1: "0 < length (els two_reveals) \<and> 0 \<in> rv_observed two_reveals \<and> intersects 0 [enters 0]"
    by (simp add: two_reveals_def initReveal_def intersects_def enters_def)
  have c1: "count_list (triggers (reveal_notify [enters 0] two_reveals)) 0 = 1"
    by (simp add: two_reveals_def initReveal_def reveal_notify_def reveal_callback_def
        reveal_entry_def deliverable_def enters_def Let_def)
  have h2: "0 < length (bars two_bars) \<and> 0 \<in> bars_observed two_bars \<and> intersects 0 [enters 0]"
    by (simp add: two_bars_def initSkillBars_def intersects_def enters_def)
  have c2: "count_list (width_sets (skill_notify [enters 0] two_bars)) 0 = 1"
    by (simp add: two_bars_def initSkillBars_def skill_notify_def skill_callback_def
        skill_entry_def deliverable_def enters_def Let_def)
  have p: "parseInt_digits (filter is_digit (ascii ''42+'')) = Some 42"
    by (simp add: ascii_def is_digit_def parseInt_digits_def digit_val_def)
  have h3: "0 < length (texts (initCounters [ascii ''42+'']))
            \<and> 0 \<in> ctr_observed (initCounters [ascii ''42+'']) \<and> intersects 0 [enters 0]
            \<and> parseInt_digits (filter is_digit (texts (initCounters [ascii ''42+'']) ! 0)) = Some 42
            \<and> (0::nat) < 42"
    using p by (simp add: initCounters_def intersects_def enters_def)
  have c3: "count_list (anim_starts (counter_notify [enters 0] (initCounters [ascii ''42+'']))) 0 = 1"
    using p by (simp add: initCounters_def counter_notify_def counter_callback_def
        counter_entry_def deliverable_def enters_def Let_def)
  have h4: "\<forall>b. RevealIntersections b \<in> set [RevealIntersections [enters 0, enters 1], RevealTime 200,
                   RevealIntersections [leaves 0], RevealIntersections [enters 0]] \<longrightarrow> one_entry_each b"
    by (auto simp: one_entry_each_def enters_def leaves_def)
  have h5: "\<forall>b \<in> set [[enters 0], [leaves 0], [enters 0]]. one_entry_each b"
    by (simp add: one_entry_each_def)
  have h6: "\<forall>b. Intersections b \<in> set [Intersections [enters 0], IntervalFires 0,
                   Intersections [leaves 0], Intersections [enters 0]] \<longrightarrow> one_entry_each b"
    by (auto simp: one_entry_each_def)
  from th [THEN conjunct1, rule_format, OF h1] c1
  have 1: "\<forall>evs. 0 \<notin> rv_observed (reveal_run evs (reveal_notify [enters 0] two_reveals))
          \<and> count_list (triggers (reveal_run evs (reveal_notify [enters 0] two_reveals))) 0 = 1"
    by simp
  from th [THEN conjunct2, THEN conjunct1, rule_format, OF h2] c2
  have 2: "\<forall>bs. 0 \<notin> bars_observed (skill_run bs (skill_notify [enters 0] two_bars))
          \<and> count_list (width_sets (skill_run bs (skill_notify [enters 0] two_bars))) 0 = 1"
    by simp
  from th [THEN conjunct2, THEN conjunct2, THEN conjunct1, rule_format, OF h3] c3
  have 3: "\<forall>evs. 0 \<notin> ctr_observed (counter_run evs (counter_notify [enters 0] (initCounters [ascii ''42+''])))
          \<and> count_list (anim_starts
                (counter_run evs (counter_notify [enters 0] (initCounters [ascii ''42+''])))) 0 = 1"
    by simp
  note 4 = th [THEN conjunct2, THEN conjunct2, THEN conjunct2, THEN conjunct1, THEN mp, OF h4]
  note 5 = th [THEN conjunct2, THEN conjunct2, THEN conjunct2, THEN conjunct2, THEN conjunct1,
      THEN mp, OF h5]
  note 6 = th [THEN conjunct2, THEN conjunct2, THEN conjunct2, THEN conjunct2, THEN conjunct2,
      THEN mp, OF h6]
  from 1 2 3 4 5 6 show ?thesis by blast
qed

subsection \<open>Skill bar width\<close>

lemma percent_setter_examples:
  "percent_setter (ascii ''80%'') = Some (ascii ''80%'')"
  "percent_setter (ascii ''95%'') = Some (ascii ''95%'')"
  "percent_setter (ascii ''abc%'') = None"
  by (simp_all add: percent_setter_def plain_percentage_def ascii_def is_digit_def)

lemma skill_notify_single:
  assumes "i < length (bars s)" and "i \<in> bars_observed s"
  shows "bars (skill_notify [\<lparr>target = i, isIntersecting = True\<rparr>] s) ! i
         = assign_style_width (dataset_width_or_80 (bars s ! i) @ ascii ''%'') (bars s ! i)"
  using assms
  by (simp add: skill_notify_def deliverable_def skill_callback_def skill_entry_def Let_def)

text \<open>
  Claim C8, amended. When the skill-bar observer handles an intersecting entry of a
  bar, the bar is what the assignment of one string to its \<open>style.width\<close> makes of
  it: the string \<open>80%\<close> if \<open>data-width\<close> is absent or empty, and \<open>w\<close> followed by
  \<open>%\<close> if \<open>data-width\<close> is the non-empty string \<open>w\<close>. The width is then the text
  the setter stores for that string, and it is the width of before when the setter
  rejects the string.
\<close>

theorem skill_width_assigned:
  assumes "i < length (bars s)" and "i \<in> bars_observed s"
  shows "(data_width (bars s ! i) = None \<or> data_width (bars s ! i) = Some [] \<longrightarrow>
            bars (skill_notify [\<lparr>target = i, isIntersecting = True\<rparr>] s) ! i
              = assign_style_width (ascii ''80%'') (bars s ! i))
       \<and> (\<forall>w. data_width (bars s ! i) = Some w \<and> w \<noteq> [] \<longrightarrow>
            bars (skill_notify [\<lparr>target = i, isIntersecting = True\<rparr>] s) ! i
              = assign_style_width (w @ ascii ''%'') (bars s ! i))
       \<and> (\<forall>v. width_setter (bars s ! i) v = None \<longrightarrow>
            style_width (assign_style_width v (bars s ! i)) = style_width (bars s ! i))
       \<and> (\<forall>v x. width_setter (bars s ! i) v = Some x \<longrightarrow>
            style_width (assign_style_width v (bars s ! i)) = x)"
proof -
  note single = skill_notify_single [OF assms]
  have 1: "bars (skill_notify [\<lparr>target = i, isIntersecting = True\<rparr>] s) ! i
             = assign_style_width (ascii ''80%'') (bars s ! i)"
    if "data_width (bars s ! i) = None \<or> data_width (bars s ! i) = Some []"
    using that single by (auto simp: dataset_width_or_80_def ascii_def)
  have 2: "bars (skill_notify [\<lparr>target = i, isIntersecting = True\<rparr>] s) ! i
             = assign_style_width (w @ ascii ''%'') (bars s ! i)"
    if "data_width (bars s ! i) = Some w \<and> w \<noteq> []" for w
    using that single by (simp add: dataset_width_or_80_def)
  have 3: "style_width (assign_style_width v b) = style_width b" if "width_setter b v = None"
    for v and b :: skill_fill
    using that by (simp add: assign_style_width_def)
  have 4: "style_width (assign_style_width v b) = x" if "width_setter b v = Some x"
    for v x and b :: skill_fill
    using that by (simp add: assign_style_width_def)
  from 1 2 3 4 show ?thesis by blast
qed

theorem skill_width_assigned_witness:
  "style_width (bars (skill_notify [\<lparr>target = 0, isIntersecting = True\<rparr>] two_bars) ! 0) = ascii ''80%''
 \<and> style_width (bars (skill_notify [\<lparr>target = 1, isIntersecting = True\<rparr>] two_bars) ! 1) = ascii ''95%''
 \<and> style_width (bars (skill_notify [\<lparr>target = 2, isIntersecting = True\<rparr>] two_bars) ! 2) = ascii ''80%''"
proof -
  have b: "bars two_bars = [skill_bar None, skill_bar (Some (ascii ''95'')), skill_bar (Some [])]"
    and o: "bars_observed two_bars = {..<3}"
    by (simp_all add: two_bars_def initSkillBars_def)
  have n: "ascii ''95'' \<noteq> []" "ascii ''95'' @ ascii ''%'' = ascii ''95%''"
    by (simp_all add: ascii_def)
  have "style_width (bars (skill_notify [\<lparr>target = 0, isIntersecting = True\<rparr>] two_bars) ! 0) = ascii ''80%''"
    using skill_width_assigned [of 0 two_bars]
    by (simp add: b o skill_bar_def assign_style_width_def percent_setter_examples)
  moreover
  have "style_width (bars (skill_notify [\<lparr>target = 1, isIntersecting = True\<rparr>] two_bars) ! 1) = ascii ''95%''"
    using skill_width_assigned [of 1 two_bars]
    by (simp add: b o n skill_bar_def assign_style_width_def percent_setter_examples)
  moreover
  have "style_width (bars (skill_notify [\<lparr>target = 2, isIntersecting = True\<rparr>] two_bars) ! 2) = ascii ''80%''"
    using skill_width_assigned [of 2 two_bars]
    by (simp add: b o skill_bar_def assign_style_width_def percent_setter_examples)
  ultimately show ?thesis by blast
qed

text \<open>
  The claim as stated fails for a \<open>data-width\<close> that gives no valid width: with
  \<open>data-width="abc"\<close> the string \<open>abc%\<close> is assigned, the setter rejects it, and the
  width is still empty.
\<close>

theorem invalid_width_counterexample:
  "style_width (bars (skill_notify [\<lparr>target = 0, isIntersecting = True\<rparr>] abc_bar) ! 0) = []"
proof -
  have "bars (skill_notify [\<lparr>target = 0, isIntersecting = True\<rparr>] abc_bar) ! 0
        = assign_style_width (ascii ''abc'' @ ascii ''%'') (skill_bar (Some (ascii ''abc'')))"
    using skill_notify_single [of 0 abc_bar]
    by (simp add: abc_bar_def initSkillBars_def dataset_width_or_80_def skill_bar_def ascii_def)
  moreover have "ascii ''abc'' @ ascii ''%'' = ascii ''abc%''" by (simp add: ascii_def)
  ultimately show ?thesis
    by (simp add: assign_style_width_def skill_bar_def percent_setter_examples)
qed

subsection \<open>Counters without a target\<close>

lemma parse_no_digits: "(\<forall>c \<in> set txt. \<not> is_digit c) \<Longrightarrow> parseInt_digits (filter is_digit txt) = None"
  by (simp add: parseInt_digits_def filter_empty_conv)

lemma counter_entry_zero:
  assumes "i < length (texts s)"
    and "parseInt_digits (filter is_digit (texts s ! i)) = None
         \<or> parseInt_digits (filter is_digit (texts s ! i)) = Some 0"
  shows "texts (counter_entry e s) = texts s"
    and "i \<in> ctr_observed s \<Longrightarrow> i \<in> ctr_observed (counter_entry e s)"
    and "count_list (anim_starts (counter_entry e s)) i = count_list (anim_starts s) i"
  using assms
  by (auto simp: counter_entry_def Let_def split: option.splits)

lemma counter_fold_zero:
  assumes "i < length (texts s)"
    and "parseInt_digits (filter is_digit (texts s ! i)) = None
         \<or> parseInt_digits (filter is_digit (texts s ! i)) = Some 0"
    and "i \<in> ctr_observed s"
  shows "texts (fold counter_entry es s) = texts s \<and> i \<in> ctr_observed (fold counter_entry es s)
         \<and> count_list (anim_starts (fold counter_entry es s)) i = count_list (anim_starts s) i"
  using assms
proof (induction es arbitrary: s)
  case Nil
  then show ?case by simp
next
  case (Cons e es)
  note z = counter_entry_zero [OF Cons.prems(1,2), of e]
  from z(1) Cons.prems(1,2) have
    "i < length (texts (counter_entry e s))"
    "parseInt_digits (filter is_digit (texts (counter_entry e s) ! i)) = None
     \<or> parseInt_digits (filter is_digit (texts (counter_entry e s) ! i)) = Some 0"
    by simp_all
  from Cons.IH [OF this z(2) [OF Cons.prems(3)]] z(1) z(3) show ?case by simp
qed

text \<open>
  Claim C9. For a counter element whose text has no digit or parses to 0, handling
  an intersecting entry changes nothing at all: no interval is set, the text is the
  same, and the element is still observed, so the same entry can be delivered and
  handled again, any number of times, with the same outcome. Whatever else a batch
  holds, after it the element is still observed, no animation was started for it,
  and all texts are the same.
\<close>

theorem zero_counter_stays_observed:
  assumes "i < length (texts s)" and "i \<in> ctr_observed s"
    and "(\<forall>c \<in> set (texts s ! i). \<not> is_digit c)
         \<or> parseInt_digits (filter is_digit (texts s ! i)) = Some 0"
  shows "counter_notify [\<lparr>target = i, isIntersecting = True\<rparr>] s = s
       \<and> deliverable (ctr_observed (counter_notify [\<lparr>target = i, isIntersecting = True\<rparr>] s))
            [\<lparr>target = i, isIntersecting = True\<rparr>] = [\<lparr>target = i, isIntersecting = True\<rparr>]
       \<and> (counter_notify [\<lparr>target = i, isIntersecting = True\<rparr>] ^^ n) s = s
       \<and> i \<in> ctr_observed (counter_notify es s)
       \<and> count_list (anim_starts (counter_notify es s)) i = count_list (anim_starts s) i
       \<and> texts (counter_notify es s) = texts s"
proof -
  have z: "parseInt_digits (filter is_digit (texts s ! i)) = None
        \<or> parseInt_digits (filter is_digit (texts s ! i)) = Some 0"
    using assms(3) parse_no_digits by blast
  then have 1: "counter_notify [\<lparr>target = i, isIntersecting = True\<rparr>] s = s"
    using assms(1,2)
    by (auto simp: counter_notify_def deliverable_def counter_callback_def counter_entry_def Let_def)
  then have 2: "(counter_notify [\<lparr>target = i, isIntersecting = True\<rparr>] ^^ n) s = s"
    by (induction n) simp_all
  from counter_fold_zero [OF assms(1) z assms(2), of "deliverable (ctr_observed s) es"]
  have 3: "i \<in> ctr_observed (counter_notify es s)
       \<and> count_list (anim_starts (counter_notify es s)) i = count_list (anim_starts s) i
       \<and> texts (counter_notify es s) = texts s"
    by (simp add: counter_notify_def counter_callback_def)
  from 1 2 3 assms(2) show ?thesis by (simp add: deliverable_def)
qed

theorem zero_counter_stays_observed_witness:
  "counter_notify [\<lparr>target = 0, isIntersecting = True\<rparr>] three_counters = three_counters
   \<and> counter_notify [\<lparr>target = 1, isIntersecting = True\<rparr>] three_counters = three_counters
   \<and> texts three_counters = [ascii ''N/A'', ascii ''0%'', ascii ''000'']
   \<and> 1 \<in> ctr_observed three_counters"
  using zero_counter_stays_observed [of 0 three_counters 1 "[]"]
        zero_counter_stays_observed [of 1 three_counters 1 "[]"]
  by (simp add: three_counters_def initCounters_def ascii_def is_digit_def parseInt_digits_def
      digit_val_def)

subsection \<open>Mobile menu and resize\<close>

lemma cl_remove_absent: "t \<notin> set (cl_remove t cl)"
  by (simp add: cl_remove_def)

text \<open>
  Claim C10. When the resize handler runs with \<open>innerWidth > 768\<close> and the mobile
  menu carries \<open>open\<close>, it removes \<open>open\<close> from the menu and from the hamburger
  button and resets the body's overflow to the empty string, and the button's
  \<open>aria-expanded\<close> attribute is what it was before; in particular it is still
  \<open>true\<close> after the menu was opened by a hamburger click. The hamburger click that
  closes the menu and the mobile-link click both set \<open>aria-expanded\<close> to \<open>false\<close>.
\<close>

theorem resize_leaves_aria_expanded:
  assumes "768 < w"
    and "mobileMenu p = Some m"
    and "hamburger p = Some b"
    and "cl_contains (ascii ''open'') (classList m)"
  shows "(\<exists>m' b'. mobileMenu (resize_handler w p) = Some m'
            \<and> hamburger (resize_handler w p) = Some b'
            \<and> \<not> cl_contains (ascii ''open'') (classList m')
            \<and> \<not> cl_contains (ascii ''open'') (classList b')
            \<and> body_overflow (resize_handler w p) = []
            \<and> aria_expanded b' = aria_expanded b)
    \<and> map_option aria_expanded (hamburger (hamburger_click p)) = Some (Some (ascii ''false''))
    \<and> map_option aria_expanded (hamburger (mobile_link_click p)) = Some (Some (ascii ''false''))
    \<and> map_option aria_expanded
           (hamburger (resize_handler w (hamburger_click (mobile_link_click p))))
         = Some (Some (ascii ''true''))"
proof -
  have 1: "\<exists>m' b'. mobileMenu (resize_handler w p) = Some m'
            \<and> hamburger (resize_handler w p) = Some b'
            \<and> \<not> cl_contains (ascii ''open'') (classList m')
            \<and> \<not> cl_contains (ascii ''open'') (classList b')
            \<and> body_overflow (resize_handler w p) = []
            \<and> aria_expanded b' = aria_expanded b"
    using assms by (simp add: resize_handler_def cl_contains_def cl_remove_absent)
  have 2: "map_option aria_expanded (hamburger (hamburger_click p)) = Some (Some (ascii ''false''))"
    using assms by (simp add: hamburger_click_def cl_toggle_def js_String_bool_def cl_contains_def)
  have 3: "map_option aria_expanded (hamburger (mobile_link_click p)) = Some (Some (ascii ''false''))"
    using assms by (simp add: mobile_link_click_def)
  have 4: "map_option aria_expanded
           (hamburger (resize_handler w (hamburger_click (mobile_link_click p))))
         = Some (Some (ascii ''true''))"
    using assms
    by (simp add: mobile_link_click_def hamburger_click_def cl_toggle_def cl_add_def
        js_String_bool_def resize_handler_def cl_contains_def cl_toggle_force_def cl_remove_absent)
  from 1 2 3 4 show ?thesis by blast
qed

theorem resize_leaves_aria_expanded_witness:
  "hamburger (resize_handler 1024 open_page)
     = Some \<lparr>classList = [ascii ''hamburger''], aria_expanded = Some (ascii ''true'')\<rparr>
   \<and> map_option aria_expanded (hamburger (hamburger_click open_page)) = Some (Some (ascii ''false''))"
  using resize_leaves_aria_expanded [of 1024 open_page
      "\<lparr>classList = [ascii ''mobile-menu'', ascii ''open''], aria_expanded = None\<rparr>"
      "\<lparr>classList = [ascii ''hamburger'', ascii ''open''], aria_expanded = Some (ascii ''true'')\<rparr>"]
  by (simp add: open_page_def resize_handler_def cl_contains_def cl_remove_def ascii_def)

end
